theory Spec2Isabelle
  imports Main
begin

section \<open>JavaScript values used by the calendar engine\<close>

text \<open>
  A JavaScript string is a sequence of UTF-16 code units; a code unit is modelled by its
  number. \<open>js\<close> turns an ASCII literal into such a sequence.
\<close>

type_synonym jsstring = "nat list"

definition js :: "string \<Rightarrow> jsstring" where
  "js s = map of_char s"

text \<open>
  A JavaScript number, as far as the engine computes with it: an integer or \<open>NaN\<close>.
  \<open>parseInt\<close> yields the double nearest to the integer it reads; rounding to nearest is
  monotone and leaves the integers the code compares against (1, 12, 31, 1900, 9999)
  fixed, so every comparison of the code has the same outcome on the exact integer.
  Start times and durations are whole minutes in the data of the calendar. Comparisons
  with \<open>NaN\<close> are false, \<open>!==\<close> with \<open>NaN\<close> is true, and arithmetic, \<open>Math.min\<close> and
  \<open>Math.max\<close> with \<open>NaN\<close> give \<open>NaN\<close>.
\<close>

datatype number = NaN | Num int

fun num_lt :: "number \<Rightarrow> number \<Rightarrow> bool" where
  "num_lt (Num a) (Num b) = (a < b)"
| "num_lt _ _ = False"

fun num_gt :: "number \<Rightarrow> number \<Rightarrow> bool" where
  "num_gt (Num a) (Num b) = (a > b)"
| "num_gt _ _ = False"

fun strict_neq :: "number \<Rightarrow> number \<Rightarrow> bool" where
  "strict_neq (Num a) (Num b) = (a \<noteq> b)"
| "strict_neq _ _ = True"

fun num_add :: "number \<Rightarrow> number \<Rightarrow> number" where
  "num_add (Num a) (Num b) = Num (a + b)"
| "num_add _ _ = NaN"

fun num_sub :: "number \<Rightarrow> number \<Rightarrow> number" where
  "num_sub (Num a) (Num b) = Num (a - b)"
| "num_sub _ _ = NaN"

fun num_mul :: "number \<Rightarrow> number \<Rightarrow> number" where
  "num_mul (Num a) (Num b) = Num (a * b)"
| "num_mul _ _ = NaN"

fun Math_min :: "number \<Rightarrow> number \<Rightarrow> number" where
  "Math_min (Num a) (Num b) = Num (min a b)"
| "Math_min _ _ = NaN"

fun Math_max :: "number \<Rightarrow> number \<Rightarrow> number" where
  "Math_max (Num a) (Num b) = Num (max a b)"
| "Math_max _ _ = NaN"

text \<open>A value that may be \<open>undefined\<close>: what array destructuring binds.\<close>

datatype 'a jsval = Undefined | Val 'a

definition elem :: "'a list \<Rightarrow> nat \<Rightarrow> 'a jsval" where
  "elem xs i = (if i < length xs then Val (xs ! i) else Undefined)"

fun ToString :: "jsstring jsval \<Rightarrow> jsstring" where
  "ToString Undefined = js ''undefined''"
| "ToString (Val s) = s"

fun ToNumber :: "number jsval \<Rightarrow> number" where
  "ToNumber Undefined = NaN"
| "ToNumber (Val n) = n"

subsection \<open>\<open>String.prototype.includes\<close> and \<open>split\<close> with a one-character argument\<close>

definition str_includes :: "jsstring \<Rightarrow> nat \<Rightarrow> bool" where
  "str_includes s c = (c \<in> set s)"

text \<open>
  \<open>s.split(sep)\<close> always has a first piece, so the case of an empty list of pieces in
  the second equation is never taken.
\<close>

fun split :: "nat \<Rightarrow> jsstring \<Rightarrow> jsstring list" where
  "split sep [] = [[]]"
| "split sep (c # cs) =
     (if c = sep then [] # split sep cs
      else (case split sep cs of
              [] \<Rightarrow> [[c]]
            | p # ps \<Rightarrow> (c # p) # ps))"

subsection \<open>\<open>parseInt(s, 10)\<close>\<close>

text \<open>
  ECMAScript \<open>parseInt\<close> with radix 10: the argument is converted to a string, leading
  white space (\<open>WhiteSpace\<close> and \<open>LineTerminator\<close> code points) is dropped, one sign is
  read, and the longest prefix of decimal digits of what follows is the value. No digit
  gives \<open>NaN\<close>. Whatever follows the digits is ignored.
\<close>

definition isWhiteSpace :: "nat \<Rightarrow> bool" where
  "isWhiteSpace c =
     (c \<in> set [9, 10, 11, 12, 13, 32, 160, 5760, 8232, 8233, 8239, 8287, 12288, 65279]
      \<or> (8192 \<le> c \<and> c \<le> 8202))"

definition isDigit :: "nat \<Rightarrow> bool" where
  "isDigit c = (48 \<le> c \<and> c \<le> 57)"

definition digitsValue :: "nat list \<Rightarrow> int" where
  "digitsValue ds = foldl (\<lambda>a c. 10 * a + (int c - 48)) 0 ds"

definition parseDigits :: "jsstring \<Rightarrow> number" where
  "parseDigits s =
     (let z = takeWhile isDigit s in if z = [] then NaN else Num (digitsValue z))"

definition parseInt :: "jsstring jsval \<Rightarrow> number" where
  "parseInt v =
     (let s = dropWhile isWhiteSpace (ToString v) in
      case s of
        [] \<Rightarrow> NaN
      | c # cs \<Rightarrow>
          if c = 45 then num_mul (Num (- 1)) (parseDigits cs)
          else if c = 43 then parseDigits cs
          else parseDigits s)"

subsection \<open>\<open>Date\<close>\<close>

text \<open>
  A \<open>Date\<close> built by \<open>new Date(year, monthIndex, day)\<close> is read back only through its
  local calendar fields, so it is modelled by them: year, month index (0 to 11) and day
  of the month, or \<open>Invalid_Date\<close> when an argument is \<open>NaN\<close>. As ECMAScript's
  \<open>MakeDay\<close> does, the constructor carries a month index outside 0..11 into the year and
  a day outside the month into the neighbouring months; years 0 to 99 mean 1900 to 1999.
  The limit of a hundred million days around 1970 is not modelled: the code constructs
  dates in the years 1900 to 9999 only. Nor is the time zone: the local midnight of every
  calendar day is taken to fall on that day.
\<close>

datatype jsdate = Invalid_Date | Date int int int

definition leapYear :: "int \<Rightarrow> bool" where
  "leapYear y = (y mod 4 = 0 \<and> (y mod 100 \<noteq> 0 \<or> y mod 400 = 0))"

definition daysInMonth :: "int \<Rightarrow> int \<Rightarrow> int" where
  "daysInMonth y m =
     (if m = 1 then (if leapYear y then 29 else 28)
      else if m \<in> {3, 5, 8, 10} then 30
      else 31)"

definition prevMonth :: "int \<times> int \<Rightarrow> int \<times> int" where
  "prevMonth ym = (case ym of (y, m) \<Rightarrow> if m = 0 then (y - 1, 11) else (y, m - 1))"

definition nextMonth :: "int \<times> int \<Rightarrow> int \<times> int" where
  "nextMonth ym = (case ym of (y, m) \<Rightarrow> if m = 11 then (y + 1, 0) else (y, m + 1))"

lemma daysInMonth_bounds: "28 \<le> daysInMonth y m \<and> daysInMonth y m \<le> 31"
  by (simp add: daysInMonth_def)

function rollDay :: "int \<Rightarrow> int \<Rightarrow> int \<Rightarrow> jsdate" where
  "rollDay y m d =
     (if d < 1 then
        (case prevMonth (y, m) of (y', m') \<Rightarrow> rollDay y' m' (d + daysInMonth y' m'))
      else if daysInMonth y m < d then
        (case nextMonth (y, m) of (y', m') \<Rightarrow> rollDay y' m' (d - daysInMonth y m))
      else Date y m d)"
  by pat_completeness auto
termination
proof (relation "measure (\<lambda>(y, m, d). if d < 1 then nat (32 - d) else nat d)")
  show "wf (measure (\<lambda>(y, m, d). if d < 1 then nat (32 - d) else nat d))"
    by simp
next
  fix y m d :: int and x y' m'
  assume "d < 1"
  have "28 \<le> daysInMonth y' m'" "daysInMonth y' m' \<le> 31"
    using daysInMonth_bounds by blast+
  with \<open>d < 1\<close>
  show "((y', m', d + daysInMonth y' m'), (y, m, d))
          \<in> measure (\<lambda>(y, m, d). if d < 1 then nat (32 - d) else nat d)"
    by auto
next
  fix y m d :: int and x y' m'
  assume "\<not> d < 1" "daysInMonth y m < d"
  moreover have "28 \<le> daysInMonth y m"
    using daysInMonth_bounds by blast
  ultimately
  show "((y', m', d - daysInMonth y m), (y, m, d))
          \<in> measure (\<lambda>(y, m, d). if d < 1 then nat (32 - d) else nat d)"
    by auto
qed

declare rollDay.simps [simp del]

fun new_Date :: "number \<Rightarrow> number \<Rightarrow> number \<Rightarrow> jsdate" where
  "new_Date (Num y) (Num m) (Num d) =
     (let yr = (if 0 \<le> y \<and> y \<le> 99 then 1900 + y else y)
      in rollDay (yr + m div 12) (m mod 12) d)"
| "new_Date _ _ _ = Invalid_Date"

fun getMonth :: "jsdate \<Rightarrow> number" where
  "getMonth Invalid_Date = NaN"
| "getMonth (Date y m d) = Num m"

fun getTime_isNaN :: "jsdate \<Rightarrow> bool" where
  "getTime_isNaN Invalid_Date = True"
| "getTime_isNaN (Date y m d) = False"

section \<open>The date search: \<open>handleSearch\<close>\<close>

text \<open>
  The \<open>try\<close> block of \<open>handleSearch\<close> computes a date from the text of the search box or
  throws an \<open>Error\<close>; this is the \<open>parseSearchInput\<close> of the specification. Each
  \<open>throw\<close> is a value of \<open>error\<close>, named after its message.
\<close>

datatype error =
    InvalidMonth          \<comment> \<open>\<open>'Invalid month'\<close>\<close>
  | InvalidDay            \<comment> \<open>\<open>'Invalid day'\<close>\<close>
  | InvalidYear           \<comment> \<open>\<open>'Invalid year'\<close>\<close>
  | InvalidDayForMonth    \<comment> \<open>\<open>'Invalid date for the given month'\<close>\<close>
  | InvalidFormat         \<comment> \<open>\<open>'Invalid date format'\<close>\<close>
  | InvalidDate           \<comment> \<open>\<open>'Invalid date'\<close>\<close>

text \<open>
  The code common to both branches, from the three parsed numbers on: the range checks,
  the construction of the date and the comparison of its month with the month typed.
\<close>

definition checkAndBuild :: "number \<Rightarrow> number \<Rightarrow> number \<Rightarrow> error + jsdate" where
  "checkAndBuild monthNum dayNum yearNum =
     (if num_lt monthNum (Num 1) \<or> num_gt monthNum (Num 12) then Inl InvalidMonth
      else if num_lt dayNum (Num 1) \<or> num_gt dayNum (Num 31) then Inl InvalidDay
      else if num_lt yearNum (Num 1900) \<or> num_gt yearNum (Num 9999) then Inl InvalidYear
      else
        let date = new_Date yearNum (num_sub monthNum (Num 1)) dayNum in
        if strict_neq (getMonth date) (num_sub monthNum (Num 1)) then Inl InvalidDayForMonth
        else Inr date)"

definition parseSearchInput :: "jsstring \<Rightarrow> error + jsdate" where
  "parseSearchInput searchDate =
     (case
        (if str_includes searchDate 47 then
           (let parts = split 47 searchDate;
                month = elem parts 0; day = elem parts 1; year = elem parts 2
            in checkAndBuild (parseInt month) (parseInt day) (parseInt year))
         else if str_includes searchDate 45 then
           (let parts = split 45 searchDate;
                year = elem parts 0; month = elem parts 1; day = elem parts 2
            in checkAndBuild (parseInt month) (parseInt day) (parseInt year))
         else Inl InvalidFormat)
      of
        Inl e \<Rightarrow> Inl e
      | Inr date \<Rightarrow> if getTime_isNaN date then Inl InvalidDate else Inr date)"

section \<open>Events\<close>

text \<open>
  An event of \<open>events.json\<close>; \<open>ident\<close> is its \<open>id\<close>. An annotated event is what
  \<open>{...e, conflict: false}\<close> builds: the fields of the event and the flag.
\<close>

record event =
  ident :: jsstring
  date :: jsstring
  startTime :: jsstring
  endTime :: jsstring
  durationMinutes :: number
  title :: jsstring
  color :: jsstring

record annotated = event +
  conflict :: bool

definition spread_conflict :: "event \<Rightarrow> bool \<Rightarrow> annotated" where
  "spread_conflict e c =
     \<lparr>ident = ident e, date = date e, startTime = startTime e, endTime = endTime e,
      durationMinutes = durationMinutes e, title = title e, color = color e, conflict = c\<rparr>"

section \<open>The event index: \<open>groupEventsByDate\<close>\<close>

text \<open>
  \<open>groupEventsByDate\<close> fills the object \<open>map = {}\<close>. Such an object has its own
  properties, here the date keys with their arrays, and inherits the properties of
  \<open>Object.prototype\<close>, whose names are listed below. Reading \<open>map[dateKey]\<close> gives the
  own array, an inherited function or object (which is truthy and has no \<open>push\<close>), or
  \<open>undefined\<close>.
\<close>

datatype exception = TypeError

definition objectPrototypeKeys :: "jsstring list" where
  "objectPrototypeKeys =
     map js [''constructor'', ''__defineGetter__'', ''__defineSetter__'', ''hasOwnProperty'',
             ''__lookupGetter__'', ''__lookupSetter__'', ''isPrototypeOf'',
             ''propertyIsEnumerable'', ''toString'', ''valueOf'', ''__proto__'',
             ''toLocaleString'']"

type_synonym eventMap = "jsstring \<rightharpoonup> event list"

datatype property = OwnArray "event list" | Inherited | Absent

definition getProperty :: "eventMap \<Rightarrow> jsstring \<Rightarrow> property" where
  "getProperty m k =
     (case m k of
        Some xs \<Rightarrow> OwnArray xs
      | None \<Rightarrow> if k \<in> set objectPrototypeKeys then Inherited else Absent)"

definition groupStep :: "eventMap \<Rightarrow> event \<Rightarrow> exception + eventMap" where
  "groupStep m e =
     (let dateKey = date e;
          m1 = (case getProperty m dateKey of Absent \<Rightarrow> m(dateKey \<mapsto> []) | _ \<Rightarrow> m)
      in case getProperty m1 dateKey of
           OwnArray xs \<Rightarrow> Inr (m1(dateKey \<mapsto> xs @ [e]))
         | _ \<Rightarrow> Inl TypeError)"

fun forEach :: "eventMap \<Rightarrow> event list \<Rightarrow> exception + eventMap" where
  "forEach m [] = Inr m"
| "forEach m (e # es) = (case groupStep m e of Inl x \<Rightarrow> Inl x | Inr m' \<Rightarrow> forEach m' es)"

definition groupEventsByDate :: "event list \<Rightarrow> exception + eventMap" where
  "groupEventsByDate events = forEach Map.empty events"

datatype lookupResult = Events "event list" | InheritedValue

text \<open>The lookup of the calendar cell and of the search: \<open>eventsByDate[iso] || []\<close>.\<close>

definition lookup :: "eventMap \<Rightarrow> jsstring \<Rightarrow> lookupResult" where
  "lookup eventsByDate dateKey =
     (case getProperty eventsByDate dateKey of
        OwnArray xs \<Rightarrow> Events xs
      | Inherited \<Rightarrow> InheritedValue
      | Absent \<Rightarrow> Events [])"

section \<open>The conflict detector: \<open>detectConflicts\<close>\<close>

text \<open>
  \<open>detectConflicts\<close> on values: \<open>results\<close> is the list of the annotated copies, and
  \<open>results[i].conflict = true\<close> replaces the record at position \<open>i\<close>. The two \<open>for\<close>
  loops are the functions \<open>outerLoop\<close> and \<open>innerLoop\<close>, which stop when the index
  reaches \<open>results.length\<close>.
\<close>

text \<open>
  \<open>toMinutes\<close> converts the two pieces of \<open>HH:MM\<close> with \<open>Number\<close>. The conversion of a
  string to a number is a parameter of the model: everything proved below holds for
  every such conversion.
\<close>

definition toMinutes :: "(jsstring \<Rightarrow> number) \<Rightarrow> jsstring \<Rightarrow> number" where
  "toMinutes Number t =
     (let parts = map Number (split 58 t); h = elem parts 0; m = elem parts 1
      in num_add (num_mul (ToNumber h) (Num 60)) (ToNumber m))"

text \<open>
  The body of the inner loop: the overlap of the range \<open>aStart..aEnd\<close> of event \<open>i\<close> with
  the range of event \<open>j\<close>, and the two assignments when it is positive.
\<close>

definition innerBody ::
  "(jsstring \<Rightarrow> number) \<Rightarrow> nat \<Rightarrow> number \<Rightarrow> number \<Rightarrow> nat \<Rightarrow> annotated list \<Rightarrow> annotated list"
where
  "innerBody Number i aStart aEnd j results =
     (let bStart = toMinutes Number (startTime (results ! j));
          bEnd = num_add bStart (durationMinutes (results ! j));
          overlap = Math_max (Num 0) (num_sub (Math_min aEnd bEnd) (Math_max aStart bStart))
      in if num_gt overlap (Num 0) then
           let results1 = results[i := (results ! i)\<lparr>conflict := True\<rparr>]
           in results1[j := (results1 ! j)\<lparr>conflict := True\<rparr>]
         else results)"

lemma length_innerBody: "length (innerBody Number i aStart aEnd j results) = length results"
  by (simp add: innerBody_def Let_def)

function innerLoop ::
  "(jsstring \<Rightarrow> number) \<Rightarrow> nat \<Rightarrow> number \<Rightarrow> number \<Rightarrow> nat \<Rightarrow> annotated list \<Rightarrow> annotated list"
where
  "innerLoop Number i aStart aEnd j results =
     (if j < length results then
        innerLoop Number i aStart aEnd (j + 1) (innerBody Number i aStart aEnd j results)
      else results)"
  by pat_completeness auto
termination
  by (relation "measure (\<lambda>(Number, i, aStart, aEnd, j, results). length results - j)")
    (auto simp add: length_innerBody)

declare innerLoop.simps [simp del]

lemma length_innerLoop: "length (innerLoop Number i aStart aEnd j results) = length results"
proof (induction Number i aStart aEnd j results rule: innerLoop.induct)
  case (1 Number i aStart aEnd j results)
  show ?case
  proof (cases "j < length results")
    case True
    then show ?thesis
      using 1 by (subst innerLoop.simps) (simp add: length_innerBody)
  next
    case False
    then show ?thesis by (subst innerLoop.simps) simp
  qed
qed

function outerLoop :: "(jsstring \<Rightarrow> number) \<Rightarrow> nat \<Rightarrow> annotated list \<Rightarrow> annotated list" where
  "outerLoop Number i results =
     (if i < length results then
        let aStart = toMinutes Number (startTime (results ! i));
            aEnd = num_add aStart (durationMinutes (results ! i))
        in outerLoop Number (i + 1) (innerLoop Number i aStart aEnd (i + 1) results)
      else results)"
  by pat_completeness auto
termination
  by (relation "measure (\<lambda>(Number, i, results). length results - i)")
    (auto simp add: length_innerLoop)

declare outerLoop.simps [simp del]

definition detectConflicts :: "(jsstring \<Rightarrow> number) \<Rightarrow> event list \<Rightarrow> annotated list" where
  "detectConflicts Number eventsForDay =
     (let results = map (\<lambda>e. spread_conflict e False) eventsForDay
      in outerLoop Number 0 results)"

section \<open>The conflict detector on a store\<close>

text \<open>
  \<open>detectConflicts\<close> once more, on a store, to see what it writes. Objects and arrays
  live at references. An object is an event with, possibly, a \<open>conflict\<close> property; an
  array is a list of references to objects. \<open>nextObj\<close> and \<open>nextArr\<close> are the first
  references not yet in use: \<open>{...e, conflict: false}\<close> and \<open>map\<close> create their results
  there. The loops are those of the code, \<open>results[i].conflict = true\<close> being a write to
  the object that \<open>results[i]\<close> refers to.
\<close>

type_synonym ref = nat

record heap =
  objs :: "ref \<Rightarrow> event \<times> bool option"
  arrs :: "ref \<Rightarrow> ref list"
  nextObj :: ref
  nextArr :: ref

definition newObject :: "event \<times> bool option \<Rightarrow> heap \<Rightarrow> ref \<times> heap" where
  "newObject v h = (nextObj h, h\<lparr>objs := (objs h)(nextObj h := v), nextObj := nextObj h + 1\<rparr>)"

definition newArray :: "ref list \<Rightarrow> heap \<Rightarrow> ref \<times> heap" where
  "newArray rs h = (nextArr h, h\<lparr>arrs := (arrs h)(nextArr h := rs), nextArr := nextArr h + 1\<rparr>)"

fun mapSpread :: "ref list \<Rightarrow> heap \<Rightarrow> ref list \<times> heap" where
  "mapSpread [] h = ([], h)"
| "mapSpread (e # es) h =
     (case newObject (fst (objs h e), Some False) h of
        (r, h1) \<Rightarrow> (case mapSpread es h1 of (rs, h2) \<Rightarrow> (r # rs, h2)))"

definition setConflict :: "ref \<Rightarrow> heap \<Rightarrow> heap" where
  "setConflict r h = h\<lparr>objs := (objs h)(r := (fst (objs h r), Some True))\<rparr>"

definition innerBodyH ::
  "(jsstring \<Rightarrow> number) \<Rightarrow> nat \<Rightarrow> number \<Rightarrow> number \<Rightarrow> nat \<Rightarrow> ref \<Rightarrow> heap \<Rightarrow> heap"
where
  "innerBodyH Number i aStart aEnd j results h =
     (let bStart = toMinutes Number (startTime (fst (objs h (arrs h results ! j))));
          bEnd = num_add bStart (durationMinutes (fst (objs h (arrs h results ! j))));
          overlap = Math_max (Num 0) (num_sub (Math_min aEnd bEnd) (Math_max aStart bStart))
      in if num_gt overlap (Num 0) then
           let h1 = setConflict (arrs h results ! i) h
           in setConflict (arrs h1 results ! j) h1
         else h)"

lemma arrs_setConflict [simp]: "arrs (setConflict r h) = arrs h"
  by (simp add: setConflict_def)

lemma arrs_innerBodyH [simp]: "arrs (innerBodyH Number i aStart aEnd j results h) = arrs h"
  by (simp add: innerBodyH_def Let_def)

function innerLoopH ::
  "(jsstring \<Rightarrow> number) \<Rightarrow> nat \<Rightarrow> number \<Rightarrow> number \<Rightarrow> nat \<Rightarrow> ref \<Rightarrow> heap \<Rightarrow> heap"
where
  "innerLoopH Number i aStart aEnd j results h =
     (if j < length (arrs h results) then
        innerLoopH Number i aStart aEnd (j + 1) results (innerBodyH Number i aStart aEnd j results h)
      else h)"
  by pat_completeness auto
termination
  by (relation "measure (\<lambda>(Number, i, aStart, aEnd, j, results, h). length (arrs h results) - j)")
    auto

declare innerLoopH.simps [simp del]

lemma arrs_innerLoopH [simp]: "arrs (innerLoopH Number i aStart aEnd j results h) = arrs h"
proof (induction Number i aStart aEnd j results h rule: innerLoopH.induct)
  case (1 Number i aStart aEnd j results h)
  show ?case
  proof (cases "j < length (arrs h results)")
    case True
    then show ?thesis using 1 by (subst innerLoopH.simps) simp
  next
    case False
    then show ?thesis by (subst innerLoopH.simps) simp
  qed
qed

function outerLoopH :: "(jsstring \<Rightarrow> number) \<Rightarrow> nat \<Rightarrow> ref \<Rightarrow> heap \<Rightarrow> heap" where
  "outerLoopH Number i results h =
     (if i < length (arrs h results) then
        let aStart = toMinutes Number (startTime (fst (objs h (arrs h results ! i))));
            aEnd = num_add aStart (durationMinutes (fst (objs h (arrs h results ! i))))
        in outerLoopH Number (i + 1) results (innerLoopH Number i aStart aEnd (i + 1) results h)
      else h)"
  by pat_completeness auto
termination
  by (relation "measure (\<lambda>(Number, i, results, h). length (arrs h results) - i)") auto

declare outerLoopH.simps [simp del]

definition detectConflictsH :: "(jsstring \<Rightarrow> number) \<Rightarrow> ref \<Rightarrow> heap \<Rightarrow> ref \<times> heap" where
  "detectConflictsH Number eventsForDay h =
     (case mapSpread (arrs h eventsForDay) h of
        (rs, h1) \<Rightarrow> (case newArray rs h1 of
          (results, h2) \<Rightarrow> (results, outerLoopH Number 0 results h2)))"

section \<open>Notions the properties are stated with\<close>

subsection \<open>The date search\<close>

text \<open>
  The three numbers the code reads from a text, as month, day and year: the first three
  pieces between slashes when the text has a slash, the first three pieces between
  hyphens (year first) when it has a hyphen and no slash, nothing otherwise.
\<close>

definition components :: "jsstring \<Rightarrow> (number \<times> number \<times> number) option" where
  "components s =
     (if str_includes s 47 then
        Some (parseInt (elem (split 47 s) 0), parseInt (elem (split 47 s) 1),
              parseInt (elem (split 47 s) 2))
      else if str_includes s 45 then
        Some (parseInt (elem (split 45 s) 1), parseInt (elem (split 45 s) 2),
              parseInt (elem (split 45 s) 0))
      else None)"

text \<open>
  The two ways of writing a calendar date that the search box documents: decimal digits,
  padded with zeros to two places for month and day and to four for the year.
\<close>

fun digitsOf :: "nat \<Rightarrow> jsstring" where
  "digitsOf n = (if n < 10 then [48 + n] else digitsOf (n div 10) @ [48 + n mod 10])"

declare digitsOf.simps [simp del]

definition pad :: "nat \<Rightarrow> nat \<Rightarrow> jsstring" where
  "pad k n = replicate (k - length (digitsOf n)) 48 @ digitsOf n"

definition renderMDY :: "nat \<Rightarrow> nat \<Rightarrow> nat \<Rightarrow> jsstring" where
  "renderMDY m d y = pad 2 m @ 47 # pad 2 d @ 47 # pad 4 y"

definition renderYMD :: "nat \<Rightarrow> nat \<Rightarrow> nat \<Rightarrow> jsstring" where
  "renderYMD y m d = pad 4 y @ 45 # pad 2 m @ 45 # pad 2 d"

subsection \<open>The event index\<close>

text \<open>A date key: \<open>YYYY-MM-DD\<close>, four digits, two digits and two digits between hyphens.\<close>

fun isDateKey :: "jsstring \<Rightarrow> bool" where
  "isDateKey [y1, y2, y3, y4, h1, m1, m2, h2, d1, d2] =
     (h1 = 45 \<and> h2 = 45 \<and> list_all isDigit [y1, y2, y3, y4, m1, m2, d1, d2])"
| "isDateKey _ = False"

definition ownOrEmpty :: "eventMap \<Rightarrow> jsstring \<Rightarrow> event list" where
  "ownOrEmpty m k = (case m k of Some xs \<Rightarrow> xs | None \<Rightarrow> [])"

subsection \<open>The conflict detector\<close>

definition overlap :: "(jsstring \<Rightarrow> number) \<Rightarrow> 'a event_scheme \<Rightarrow> 'b event_scheme \<Rightarrow> number" where
  "overlap Number a b =
     (let startA = toMinutes Number (startTime a); endA = num_add startA (durationMinutes a);
          startB = toMinutes Number (startTime b); endB = num_add startB (durationMinutes b)
      in Math_max (Num 0) (num_sub (Math_min endA endB) (Math_max startA startB)))"

definition overlaps :: "(jsstring \<Rightarrow> number) \<Rightarrow> 'a event_scheme \<Rightarrow> 'b event_scheme \<Rightarrow> bool" where
  "overlaps Number a b = num_gt (overlap Number a b) (Num 0)"

text \<open>Some other event of the list overlaps the event at position \<open>k\<close>.\<close>

definition conflicting :: "(jsstring \<Rightarrow> number) \<Rightarrow> event list \<Rightarrow> nat \<Rightarrow> bool" where
  "conflicting N evs k = (\<exists>l<length evs. l \<noteq> k \<and> num_gt (overlap N (evs ! k) (evs ! l)) (Num 0))"

definition innerFlag :: "(jsstring \<Rightarrow> number) \<Rightarrow> nat \<Rightarrow> nat \<Rightarrow> annotated list \<Rightarrow> nat \<Rightarrow> bool" where
  "innerFlag N i j rs k =
     (conflict (rs ! k)
      \<or> (k = i \<and> (\<exists>l. j \<le> l \<and> l < length rs \<and> overlaps N (rs ! i) (rs ! l)))
      \<or> (j \<le> k \<and> overlaps N (rs ! i) (rs ! k)))"

definition outerFlag :: "(jsstring \<Rightarrow> number) \<Rightarrow> nat \<Rightarrow> annotated list \<Rightarrow> nat \<Rightarrow> bool" where
  "outerFlag N i rs k =
     (conflict (rs ! k)
      \<or> (\<exists>a b. i \<le> a \<and> a < b \<and> b < length rs \<and> (k = a \<or> k = b)
            \<and> overlaps N (rs ! a) (rs ! b)))"

subsection \<open>The store\<close>

text \<open>An object of the store as an annotated event; a missing flag reads as false.\<close>

definition view :: "heap \<Rightarrow> ref \<Rightarrow> annotated" where
  "view h r = spread_conflict (fst (objs h r)) (snd (objs h r) = Some True)"

definition viewArr :: "heap \<Rightarrow> ref \<Rightarrow> annotated list" where
  "viewArr h a = map (view h) (arrs h a)"

text \<open>
  \<open>h'\<close> differs from \<open>h\<close> at most in the flags of the objects of the array \<open>a\<close>.
\<close>

definition flagsOnly :: "ref \<Rightarrow> heap \<Rightarrow> heap \<Rightarrow> bool" where
  "flagsOnly a h h' =
     (arrs h' = arrs h \<and> nextObj h' = nextObj h \<and> nextArr h' = nextArr h
      \<and> (\<forall>r. fst (objs h' r) = fst (objs h r))
      \<and> (\<forall>r. r \<notin> set (arrs h a) \<longrightarrow> objs h' r = objs h r))"

subsection \<open>Examples\<close>

text \<open>
  For the examples, \<open>Number\<close> on a text of decimal digits, which is what the pieces of
  an \<open>HH:MM\<close> time are; the other spellings of a number that \<open>Number\<close> reads (a sign,
  a fraction, an exponent, a radix prefix, white space around) do not occur in them.
\<close>

definition Number_decimal :: "jsstring \<Rightarrow> number" where
  "Number_decimal s =
     (if s = [] then Num 0 else if list_all isDigit s then Num (digitsValue s) else NaN)"

definition meeting :: "string \<Rightarrow> int \<Rightarrow> event" where
  "meeting t d =
     \<lparr>ident = js ''e'', date = js ''2025-06-15'', startTime = js t, endTime = js '''',
      durationMinutes = Num d, title = js ''Meeting'', color = js ''#2563eb''\<rparr>"

text \<open>An event on a given date, for the examples.\<close>

definition meetingOn :: "string \<Rightarrow> string \<Rightarrow> event" where
  "meetingOn d t = (meeting t 30)\<lparr>date := js d\<rparr>"

text \<open>A store with one array of two events, for the example.\<close>

definition exampleHeap :: heap where
  "exampleHeap =
     \<lparr>objs = (\<lambda>r. (meeting ''00:00'' 0, None))
               (0 := (meeting ''09:00'' 60, None), 1 := (meeting ''09:30'' 30, None)),
      arrs = (\<lambda>a. [])(0 := [0, 1]),
      nextObj = 2, nextArr = 1\<rparr>"

section \<open>Properties of the date search\<close>

subsection \<open>The date constructor and the checks\<close>

lemma rollDay_inside:
  "1 \<le> d \<Longrightarrow> d \<le> daysInMonth y m \<Longrightarrow> rollDay y m d = Date y m d"
  by (subst rollDay.simps) simp

lemma rollDay_over:
  assumes "0 \<le> m" "m \<le> 11" "daysInMonth y m < d" "d \<le> 31"
  shows "rollDay y m d = Date (fst (nextMonth (y, m))) (snd (nextMonth (y, m))) (d - daysInMonth y m)"
proof -
  have b: "28 \<le> daysInMonth y m" using daysInMonth_bounds by blast
  obtain y' m' where n: "nextMonth (y, m) = (y', m')" by force
  have "28 \<le> daysInMonth y' m'" using daysInMonth_bounds by blast
  with assms b have "rollDay y' m' (d - daysInMonth y m) = Date y' m' (d - daysInMonth y m)"
    by (intro rollDay_inside) auto
  with assms b n show ?thesis
    by (subst rollDay.simps) simp
qed

lemma nextMonth_neq: "snd (nextMonth (y, m)) \<noteq> m"
  by (simp add: nextMonth_def)

lemma checkAndBuild_in_range:
  assumes "1 \<le> m" "m \<le> 12" "1 \<le> d" "d \<le> 31" "1900 \<le> y" "y \<le> 9999"
  shows "checkAndBuild (Num m) (Num d) (Num y) =
           (if d \<le> daysInMonth y (m - 1) then Inr (Date y (m - 1) d)
            else Inl InvalidDayForMonth)"
proof -
  have md: "(m - 1) div 12 = 0" "(m - 1) mod 12 = m - 1"
    using assms by auto
  show ?thesis
  proof (cases "d \<le> daysInMonth y (m - 1)")
    case True
    with assms md show ?thesis
      by (simp add: checkAndBuild_def rollDay_inside)
  next
    case False
    with assms have "rollDay y (m - 1) d =
        Date (fst (nextMonth (y, m - 1))) (snd (nextMonth (y, m - 1))) (d - daysInMonth y (m - 1))"
      by (intro rollDay_over) auto
    with assms md False show ?thesis
      by (simp add: checkAndBuild_def nextMonth_neq)
  qed
qed

lemma checkAndBuild_numeric:
  "checkAndBuild (Num m) (Num d) (Num y) =
     (if m < 1 \<or> 12 < m then Inl InvalidMonth
      else if d < 1 \<or> 31 < d then Inl InvalidDay
      else if y < 1900 \<or> 9999 < y then Inl InvalidYear
      else if d \<le> daysInMonth y (m - 1) then Inr (Date y (m - 1) d)
      else Inl InvalidDayForMonth)"
proof (cases "1 \<le> m \<and> m \<le> 12 \<and> 1 \<le> d \<and> d \<le> 31 \<and> 1900 \<le> y \<and> y \<le> 9999")
  case True
  then show ?thesis using checkAndBuild_in_range [of m d y] by auto
next
  case False
  then show ?thesis by (auto simp add: checkAndBuild_def)
qed

lemma checkAndBuild_not_Invalid_Date: "checkAndBuild a b c \<noteq> Inr Invalid_Date"
proof (cases a; cases b; cases c)
  fix m d y assume "a = Num m" "b = Num d" "c = Num y"
  then show ?thesis by (simp add: checkAndBuild_numeric)
qed (auto simp add: checkAndBuild_def Let_def)

lemma checkAndBuild_valid:
  "checkAndBuild a b c = Inr dt \<Longrightarrow> \<not> getTime_isNaN dt"
  using checkAndBuild_not_Invalid_Date [of a b c] by (cases dt) auto

lemma parseSearchInput_components:
  "parseSearchInput s =
     (case components s of
        None \<Rightarrow> Inl InvalidFormat
      | Some (m, d, y) \<Rightarrow> checkAndBuild m d y)"
  using checkAndBuild_valid
  by (auto simp add: parseSearchInput_def components_def Let_def split: sum.splits)

subsection \<open>Splitting and reading the pieces\<close>

lemma split_not_Nil: "split sep s \<noteq> []"
  by (induction s) (auto split: list.splits)

lemma split_no_sep: "sep \<notin> set s \<Longrightarrow> split sep s = [s]"
  by (induction s) auto

lemma split_append_sep:
  "sep \<notin> set a \<Longrightarrow> split sep (a @ sep # r) = a # split sep r"
  by (induction a) auto

lemma split3:
  "sep \<notin> set a \<Longrightarrow> sep \<notin> set b \<Longrightarrow> sep \<notin> set c \<Longrightarrow>
   split sep (a @ sep # b @ sep # c) = [a, b, c]"
  by (simp add: split_append_sep split_no_sep)

lemma take3_split_extra:
  "sep \<notin> set a \<Longrightarrow> sep \<notin> set b \<Longrightarrow> sep \<notin> set c \<Longrightarrow>
   take 3 (split sep (a @ sep # b @ sep # c @ sep # r)) = [a, b, c]"
  by (simp add: split_append_sep numeral_3_eq_3)

lemma elem_take: "i < n \<Longrightarrow> elem (take n xs) i = elem xs i"
  by (simp add: elem_def)

lemma components_take:
  "components s =
     (if str_includes s 47 then
        Some (parseInt (elem (take 3 (split 47 s)) 0), parseInt (elem (take 3 (split 47 s)) 1),
              parseInt (elem (take 3 (split 47 s)) 2))
      else if str_includes s 45 then
        Some (parseInt (elem (take 3 (split 45 s)) 1), parseInt (elem (take 3 (split 45 s)) 2),
              parseInt (elem (take 3 (split 45 s)) 0))
      else None)"
  by (simp add: components_def elem_take)

lemma components_slash:
  "47 \<notin> set a \<Longrightarrow> 47 \<notin> set b \<Longrightarrow> 47 \<notin> set c \<Longrightarrow>
   components (a @ 47 # b @ 47 # c) = Some (parseInt (Val a), parseInt (Val b), parseInt (Val c))"
  by (simp add: components_def str_includes_def split3 elem_def)

lemma components_slash_extra:
  "47 \<notin> set a \<Longrightarrow> 47 \<notin> set b \<Longrightarrow> 47 \<notin> set c \<Longrightarrow>
   components (a @ 47 # b @ 47 # c @ 47 # r)
     = Some (parseInt (Val a), parseInt (Val b), parseInt (Val c))"
  by (simp add: components_take str_includes_def take3_split_extra elem_def)

lemma components_hyphen:
  "47 \<notin> set (a @ b @ c) \<Longrightarrow> 45 \<notin> set a \<Longrightarrow> 45 \<notin> set b \<Longrightarrow> 45 \<notin> set c \<Longrightarrow>
   components (a @ 45 # b @ 45 # c) = Some (parseInt (Val b), parseInt (Val c), parseInt (Val a))"
  by (simp add: components_def str_includes_def split3 elem_def)

lemma components_hyphen_extra:
  "47 \<notin> set (a @ b @ c @ r) \<Longrightarrow> 45 \<notin> set a \<Longrightarrow> 45 \<notin> set b \<Longrightarrow> 45 \<notin> set c \<Longrightarrow>
   components (a @ 45 # b @ 45 # c @ 45 # r)
     = Some (parseInt (Val b), parseInt (Val c), parseInt (Val a))"
  by (simp add: components_take str_includes_def take3_split_extra elem_def)

lemma takeWhile_digits_junk:
  assumes "\<forall>c\<in>set ds. isDigit c" "junk = [] \<or> \<not> isDigit (hd junk)"
  shows "takeWhile isDigit (ds @ junk) = ds"
proof -
  have "takeWhile isDigit junk = []"
    using assms(2) by (cases junk) auto
  with assms(1) show ?thesis by (simp add: takeWhile_append2)
qed

lemma takeWhile_all_digits: "\<forall>c\<in>set ds. isDigit c \<Longrightarrow> takeWhile isDigit ds = ds"
  by (simp add: takeWhile_eq_all_conv)

lemma parseDigits_junk:
  "\<forall>c\<in>set ds. isDigit c \<Longrightarrow> junk = [] \<or> \<not> isDigit (hd junk) \<Longrightarrow>
   parseDigits (ds @ junk) = parseDigits ds"
  unfolding parseDigits_def
  by (simp only: takeWhile_digits_junk takeWhile_all_digits)

lemma digit_not_special: "isDigit c \<Longrightarrow> \<not> isWhiteSpace c \<and> c \<noteq> 45 \<and> c \<noteq> 43"
  by (auto simp add: isDigit_def isWhiteSpace_def)

lemma parseInt_digits:
  assumes "ds \<noteq> []" "\<forall>c\<in>set ds. isDigit c"
  shows "parseInt (Val (ds @ junk)) = parseDigits (ds @ junk)"
proof -
  obtain c cs where ds: "ds = c # cs" using assms(1) by (cases ds) auto
  with assms(2) have "isDigit c" by simp
  then have "\<not> isWhiteSpace c" "c \<noteq> 45" "c \<noteq> 43"
    using digit_not_special by blast+
  with ds show ?thesis by (simp add: parseInt_def)
qed

lemma dropWhile_ws_prefix:
  assumes "\<forall>c\<in>set ws. isWhiteSpace c"
  shows "dropWhile isWhiteSpace (ws @ s) = dropWhile isWhiteSpace s"
  using assms by (induction ws) auto

lemma parseInt_ws: "\<forall>c\<in>set ws. isWhiteSpace c \<Longrightarrow> parseInt (Val (ws @ s)) = parseInt (Val s)"
  by (simp add: parseInt_def dropWhile_ws_prefix)

lemma parseInt_lenient:
  assumes "\<forall>c\<in>set ws. isWhiteSpace c" "ds \<noteq> []" "\<forall>c\<in>set ds. isDigit c"
    "junk = [] \<or> \<not> isDigit (hd junk)"
  shows "parseInt (Val (ws @ ds @ junk)) = Num (digitsValue ds)"
proof -
  have "parseInt (Val (ws @ ds @ junk)) = parseDigits (ds @ junk)"
    using assms by (simp add: parseInt_ws parseInt_digits)
  also have "\<dots> = parseDigits ds"
    using assms by (simp add: parseDigits_junk)
  also have "\<dots> = Num (digitsValue ds)"
    using assms by (simp add: parseDigits_def takeWhile_all_digits)
  finally show ?thesis .
qed

subsection \<open>The two renderings of a date\<close>

lemma digitsOf_digits: "\<forall>c\<in>set (digitsOf n). isDigit c"
proof (induction n rule: digitsOf.induct)
  case (1 n)
  show ?case
  proof (cases "n < 10")
    case True
    then show ?thesis by (subst digitsOf.simps) (simp add: isDigit_def)
  next
    case False
    have "n mod 10 < 10" by simp
    then have "isDigit (48 + n mod 10)" unfolding isDigit_def by linarith
    with False 1 show ?thesis by (subst digitsOf.simps) simp
  qed
qed

lemma digitsOf_not_Nil: "digitsOf n \<noteq> []"
  by (subst digitsOf.simps) simp

lemma digitsValue_snoc: "digitsValue (ds @ [c]) = 10 * digitsValue ds + (int c - 48)"
  by (simp add: digitsValue_def)

lemma digitsValue_digitsOf: "digitsValue (digitsOf n) = int n"
proof (induction n rule: digitsOf.induct)
  case (1 n)
  show ?case
  proof (cases "n < 10")
    case True
    then show ?thesis by (subst digitsOf.simps) (simp add: digitsValue_def)
  next
    case False
    with 1 have "digitsValue (digitsOf (n div 10)) = int (n div 10)" by simp
    with False show ?thesis
      by (subst digitsOf.simps) (simp add: digitsValue_snoc zdiv_int zmod_int)
  qed
qed

lemma digitsValue_zeros: "digitsValue (replicate z 48 @ ds) = digitsValue ds"
proof -
  have "foldl (\<lambda>a c. 10 * a + (int c - 48)) 0 (replicate z 48) = 0"
    by (induction z) simp_all
  then show ?thesis by (simp add: digitsValue_def)
qed

lemma pad_digits: "\<forall>c\<in>set (pad k n). isDigit c"
  using digitsOf_digits [of n] by (auto simp add: pad_def isDigit_def)

lemma pad_not_Nil: "pad k n \<noteq> []"
  by (simp add: pad_def digitsOf_not_Nil)

lemma pad_no_sep: "47 \<notin> set (pad k n) \<and> 45 \<notin> set (pad k n)"
  using pad_digits [of k n] by (auto simp add: isDigit_def)

lemma parseInt_pad: "parseInt (Val (pad k n)) = Num (int n)"
proof -
  have "parseInt (Val ([] @ pad k n @ [])) = Num (digitsValue (pad k n))"
    by (rule parseInt_lenient) (simp_all add: pad_digits pad_not_Nil)
  then show ?thesis
    by (simp add: pad_def digitsValue_zeros digitsValue_digitsOf)
qed

lemma components_renderMDY: "components (renderMDY m d y) = Some (Num (int m), Num (int d), Num (int y))"
  unfolding renderMDY_def
  by (simp add: components_slash pad_no_sep parseInt_pad)

lemma components_renderYMD: "components (renderYMD y m d) = Some (Num (int m), Num (int d), Num (int y))"
  unfolding renderYMD_def
  by (simp add: components_hyphen pad_no_sep parseInt_pad)

lemma render_examples:
  "renderMDY 6 15 2025 = js ''06/15/2025''" "renderYMD 2025 6 15 = js ''2025-06-15''"
  by (simp_all add: renderMDY_def renderYMD_def pad_def js_def digitsOf.simps)

text \<open>A date of the calendar, in either rendering, resolves to that date.\<close>

lemma parseSearchInput_render_valid:
  assumes "1 \<le> m" "m \<le> 12" "1 \<le> d" "int d \<le> daysInMonth (int y) (int m - 1)"
    and "1900 \<le> y" "y \<le> 9999"
  shows "parseSearchInput (renderMDY m d y) = Inr (Date (int y) (int m - 1) (int d))"
    and "parseSearchInput (renderYMD y m d) = Inr (Date (int y) (int m - 1) (int d))"
proof -
  have "int d \<le> 31"
    using assms(4) daysInMonth_bounds [of "int y" "int m - 1"] by linarith
  with assms have "checkAndBuild (Num (int m)) (Num (int d)) (Num (int y))
      = Inr (Date (int y) (int m - 1) (int d))"
    by (simp add: checkAndBuild_numeric)
  then show "parseSearchInput (renderMDY m d y) = Inr (Date (int y) (int m - 1) (int d))"
    and "parseSearchInput (renderYMD y m d) = Inr (Date (int y) (int m - 1) (int d))"
    by (simp_all add: parseSearchInput_components components_renderMDY components_renderYMD)
qed

subsection \<open>The claims about the date search\<close>

lemmas components_eval =
  components_def js_def str_includes_def elem_def parseInt_def parseDigits_def isDigit_def
  isWhiteSpace_def digitsValue_def

text \<open>
  Claim C2, as amended. A text with neither a slash nor a hyphen is the only shape the
  code refuses as such: it fails with \<open>InvalidFormat\<close>.
\<close>

theorem parseSearchInput_no_separator:
  "\<not> str_includes s 47 \<Longrightarrow> \<not> str_includes s 45 \<Longrightarrow> parseSearchInput s = Inl InvalidFormat"
  by (simp add: parseSearchInput_def)

text \<open>The text \<open>20250615\<close> has no separator and is refused with \<open>InvalidFormat\<close>.\<close>

theorem parseSearchInput_no_separator_witness:
  "\<not> str_includes (js ''20250615'') 47 \<and> \<not> str_includes (js ''20250615'') 45
   \<and> parseSearchInput (js ''20250615'') = Inl InvalidFormat"
  using parseSearchInput_no_separator [of "js ''20250615''"]
  by (simp add: js_def str_includes_def)

text \<open>
  Claim C2 as stated fails: \<open>06/15/2025 10:30\<close> is neither \<open>MM/DD/YYYY\<close> nor
  \<open>YYYY-MM-DD\<close> and resolves to 15 June 2025, and \<open>not-a-date\<close> fails with
  \<open>'Invalid date for the given month'\<close>, not with \<open>'Invalid date format'\<close>.
\<close>

theorem parseSearchInput_other_shape_counterexample:
  "parseSearchInput (js ''06/15/2025 10:30'') = Inr (Date 2025 5 15)
   \<and> parseSearchInput (js ''not-a-date'') = Inl InvalidDayForMonth"
proof -
  have "parseSearchInput (js ''06/15/2025 10:30'') = Inr (Date 2025 5 15)"
    by (simp add: parseSearchInput_components components_eval checkAndBuild_numeric
        daysInMonth_def)
  moreover have "parseSearchInput (js ''not-a-date'') = Inl InvalidDayForMonth"
    by (simp add: parseSearchInput_components components_eval checkAndBuild_def)
  ultimately show ?thesis by simp
qed

text \<open>
  Claim C3. A piece that is not a number makes \<open>parseInt\<close> return \<open>NaN\<close>. \<open>NaN\<close>
  passes every range check, the date built from it is invalid, its month is \<open>NaN\<close>,
  and \<open>NaN !== monthNum - 1\<close> holds: the code throws \<open>'Invalid date for the given
  month'\<close>. The check \<open>isNaN(date.getTime())\<close> that follows the two branches, with its
  message \<open>'Invalid date'\<close>, is never reached with an invalid date.
\<close>

theorem parseSearchInput_non_numeric:
  "parseSearchInput (js ''06/ab/2025'') = Inl InvalidDayForMonth
   \<and> parseSearchInput (js ''2025-xx-15'') = Inl InvalidDayForMonth
   \<and> (\<forall>s. parseSearchInput s \<noteq> Inl InvalidDate)"
proof -
  have "parseSearchInput s \<noteq> Inl InvalidDate" for s
    by (cases "components s")
      (auto simp add: parseSearchInput_components checkAndBuild_def Let_def split: if_splits)
  then show ?thesis
    by (simp add: parseSearchInput_components components_eval checkAndBuild_def)
qed

text \<open>
  Claim C4. When the three numbers pass the range checks and the day is larger than the
  number of days of the month, the month of the constructed date differs from the month
  typed and the search fails with \<open>InvalidDayForMonth\<close>.
\<close>

theorem parseSearchInput_day_overflow:
  assumes "components s = Some (Num m, Num d, Num y)"
    and "1 \<le> m" "m \<le> 12" "1 \<le> d" "d \<le> 31" "1900 \<le> y" "y \<le> 9999"
    and "daysInMonth y (m - 1) < d"
  shows "strict_neq (getMonth (new_Date (Num y) (num_sub (Num m) (Num 1)) (Num d)))
           (num_sub (Num m) (Num 1))
         \<and> parseSearchInput s = Inl InvalidDayForMonth"
proof -
  have md: "(m - 1) div 12 = 0" "(m - 1) mod 12 = m - 1"
    using assms by auto
  have "rollDay y (m - 1) d =
      Date (fst (nextMonth (y, m - 1))) (snd (nextMonth (y, m - 1))) (d - daysInMonth y (m - 1))"
    using assms by (intro rollDay_over) auto
  with assms md
  have "strict_neq (getMonth (new_Date (Num y) (num_sub (Num m) (Num 1)) (Num d)))
          (num_sub (Num m) (Num 1))"
    by (simp add: nextMonth_neq)
  moreover have "parseSearchInput s = Inl InvalidDayForMonth"
    using assms by (simp add: parseSearchInput_components checkAndBuild_numeric)
  ultimately show ?thesis by simp
qed

text \<open>\<open>02/31/2025\<close>: February 2025 has 28 days, the search fails with \<open>InvalidDayForMonth\<close>.\<close>

theorem parseSearchInput_day_overflow_witness:
  "components (js ''02/31/2025'') = Some (Num 2, Num 31, Num 2025)
   \<and> daysInMonth 2025 (2 - 1) < 31
   \<and> parseSearchInput (js ''02/31/2025'') = Inl InvalidDayForMonth"
proof -
  have c: "components (js ''02/31/2025'') = Some (Num 2, Num 31, Num 2025)"
    by (simp add: components_eval)
  have d: "daysInMonth 2025 (2 - 1) < 31"
    by (simp add: daysInMonth_def leapYear_def)
  from parseSearchInput_day_overflow [OF c _ _ _ _ _ _ d] c d show ?thesis by simp
qed

text \<open>
  Claim C5. With three numbers read, the month is checked first, then the day, then the
  year, and the first check that fails gives the reason; when all three pass, the day
  is compared with the length of the month.
\<close>

theorem parseSearchInput_range_checks:
  assumes "components s = Some (Num m, Num d, Num y)"
  shows "parseSearchInput s =
           (if m < 1 \<or> 12 < m then Inl InvalidMonth
            else if d < 1 \<or> 31 < d then Inl InvalidDay
            else if y < 1900 \<or> 9999 < y then Inl InvalidYear
            else if d \<le> daysInMonth y (m - 1) then Inr (Date y (m - 1) d)
            else Inl InvalidDayForMonth)"
  using assms by (simp add: parseSearchInput_components checkAndBuild_numeric)

text \<open>
  \<open>13/01/2025\<close> fails with \<open>InvalidMonth\<close>; \<open>1800-12-32\<close> has a wrong day and a
  wrong year and fails with \<open>InvalidDay\<close>; \<open>12/31/1800\<close> fails with \<open>InvalidYear\<close>.
\<close>

theorem parseSearchInput_range_checks_witness:
  "components (js ''13/01/2025'') = Some (Num 13, Num 1, Num 2025)
   \<and> parseSearchInput (js ''13/01/2025'') = Inl InvalidMonth
   \<and> components (js ''1800-12-32'') = Some (Num 12, Num 32, Num 1800)
   \<and> parseSearchInput (js ''1800-12-32'') = Inl InvalidDay
   \<and> components (js ''12/31/1800'') = Some (Num 12, Num 31, Num 1800)
   \<and> parseSearchInput (js ''12/31/1800'') = Inl InvalidYear"
proof -
  have c1: "components (js ''13/01/2025'') = Some (Num 13, Num 1, Num 2025)"
    by (simp add: components_eval)
  have c2: "components (js ''1800-12-32'') = Some (Num 12, Num 32, Num 1800)"
    by (simp add: components_eval)
  have c3: "components (js ''12/31/1800'') = Some (Num 12, Num 31, Num 1800)"
    by (simp add: components_eval)
  from parseSearchInput_range_checks [OF c1] parseSearchInput_range_checks [OF c2]
    parseSearchInput_range_checks [OF c3] c1 c2 c3
  show ?thesis by simp
qed

text \<open>
  Claim C7. The two renderings of the same month, day and year give the same outcome,
  whatever it is; for 15 June 2025 both give that date.
\<close>

theorem parseSearchInput_format_independent:
  "parseSearchInput (renderMDY m d y) = parseSearchInput (renderYMD y m d)
   \<and> parseSearchInput (js ''06/15/2025'') = Inr (Date 2025 5 15)
   \<and> parseSearchInput (js ''2025-06-15'') = Inr (Date 2025 5 15)"
proof -
  have "parseSearchInput (renderMDY m d y) = parseSearchInput (renderYMD y m d)"
    by (simp add: parseSearchInput_components components_renderMDY components_renderYMD)
  moreover have "parseSearchInput (renderMDY 6 15 2025) = Inr (Date 2025 5 15)"
    by (simp add: parseSearchInput_components components_renderMDY checkAndBuild_numeric
        daysInMonth_def)
  moreover have "parseSearchInput (renderYMD 2025 6 15) = Inr (Date 2025 5 15)"
    by (simp add: parseSearchInput_components components_renderYMD checkAndBuild_numeric
        daysInMonth_def)
  ultimately show ?thesis by (simp add: render_examples)
qed

text \<open>
  Claim C10. Only the first three pieces are read: whatever follows a third separator
  is ignored. A piece is read by \<open>parseInt\<close>, which skips leading white space and
  stops at the first character that is not a digit. So \<open>06/15/2025/extra\<close> and
  \<open>6/15x/2025\<close> both resolve to 15 June 2025.
\<close>

theorem parseSearchInput_lenient:
  "(\<forall>a b c r. 47 \<notin> set a \<and> 47 \<notin> set b \<and> 47 \<notin> set c \<longrightarrow>
      parseSearchInput (a @ 47 # b @ 47 # c @ 47 # r) = parseSearchInput (a @ 47 # b @ 47 # c))
   \<and> (\<forall>a b c r. 47 \<notin> set (a @ b @ c @ r) \<and> 45 \<notin> set a \<and> 45 \<notin> set b \<and> 45 \<notin> set c \<longrightarrow>
      parseSearchInput (a @ 45 # b @ 45 # c @ 45 # r) = parseSearchInput (a @ 45 # b @ 45 # c))
   \<and> (\<forall>ws ds junk. (\<forall>c\<in>set ws. isWhiteSpace c) \<and> ds \<noteq> [] \<and> (\<forall>c\<in>set ds. isDigit c)
        \<and> (junk = [] \<or> \<not> isDigit (hd junk)) \<longrightarrow>
      parseInt (Val (ws @ ds @ junk)) = parseInt (Val ds))
   \<and> parseSearchInput (js ''06/15/2025/extra'') = Inr (Date 2025 5 15)
   \<and> parseSearchInput (js ''6/15x/2025'') = Inr (Date 2025 5 15)"
proof -
  have "parseSearchInput (a @ 47 # b @ 47 # c @ 47 # r) = parseSearchInput (a @ 47 # b @ 47 # c)"
    if "47 \<notin> set a \<and> 47 \<notin> set b \<and> 47 \<notin> set c" for a b c r
    using that by (simp add: parseSearchInput_components components_slash components_slash_extra)
  moreover
  have "parseSearchInput (a @ 45 # b @ 45 # c @ 45 # r) = parseSearchInput (a @ 45 # b @ 45 # c)"
    if "47 \<notin> set (a @ b @ c @ r) \<and> 45 \<notin> set a \<and> 45 \<notin> set b \<and> 45 \<notin> set c" for a b c r
    using that components_hyphen [of a b c] components_hyphen_extra [of a b c r]
    by (simp add: parseSearchInput_components)
  moreover
  have "parseInt (Val (ws @ ds @ junk)) = parseInt (Val ds)"
    if "(\<forall>c\<in>set ws. isWhiteSpace c) \<and> ds \<noteq> [] \<and> (\<forall>c\<in>set ds. isDigit c)
        \<and> (junk = [] \<or> \<not> isDigit (hd junk))" for ws ds junk
    using that parseInt_lenient [of ws ds junk] parseInt_lenient [of "[]" ds "[]"] by simp
  moreover
  have "parseSearchInput (js ''06/15/2025/extra'') = Inr (Date 2025 5 15)"
    by (simp add: parseSearchInput_components components_eval checkAndBuild_numeric
      daysInMonth_def)
  moreover
  have "parseSearchInput (js ''6/15x/2025'') = Inr (Date 2025 5 15)"
    by (simp add: parseSearchInput_components components_eval checkAndBuild_numeric
      daysInMonth_def)
  ultimately show ?thesis by blast
qed

text \<open>The three general statements of C10, each at a concrete text.\<close>

theorem parseSearchInput_lenient_witness:
  "parseSearchInput (js ''06/15/2025/extra'') = parseSearchInput (js ''06/15/2025'')
   \<and> parseSearchInput (js ''2025-06-15-extra'') = parseSearchInput (js ''2025-06-15'')
   \<and> parseInt (Val (js '' 15x'')) = parseInt (Val (js ''15''))"
proof -
  note L = parseSearchInput_lenient
  have "parseSearchInput (js ''06'' @ 47 # js ''15'' @ 47 # js ''2025'' @ 47 # js ''extra'')
        = parseSearchInput (js ''06'' @ 47 # js ''15'' @ 47 # js ''2025'')"
    using L [THEN conjunct1, rule_format, of "js ''06''" "js ''15''" "js ''2025''" "js ''extra''"]
    by (simp add: js_def)
  moreover
  have "parseSearchInput (js ''2025'' @ 45 # js ''06'' @ 45 # js ''15'' @ 45 # js ''extra'')
        = parseSearchInput (js ''2025'' @ 45 # js ''06'' @ 45 # js ''15'')"
    using L [THEN conjunct2, THEN conjunct1, rule_format,
        of "js ''2025''" "js ''06''" "js ''15''" "js ''extra''"]
    by (simp add: js_def)
  moreover
  have "parseInt (Val (js '' '' @ js ''15'' @ js ''x'')) = parseInt (Val (js ''15''))"
    using L [THEN conjunct2, THEN conjunct2, THEN conjunct1, rule_format,
        of "js '' ''" "js ''15''" "js ''x''"]
    by (simp add: js_def isWhiteSpace_def isDigit_def)
  ultimately show ?thesis by (simp add: js_def)
qed

section \<open>Properties of the event index\<close>

lemma isDateKey_not_inherited: "isDateKey k \<Longrightarrow> k \<notin> set objectPrototypeKeys"
  by (auto simp add: objectPrototypeKeys_def js_def)

lemma groupStep_own:
  assumes "date e \<notin> set objectPrototypeKeys"
  shows "groupStep m e = Inr (m(date e \<mapsto> ownOrEmpty m (date e) @ [e]))"
  using assms
  by (cases "m (date e)") (simp_all add: groupStep_def getProperty_def ownOrEmpty_def)

lemma forEach_own:
  assumes "\<forall>e\<in>set es. date e \<notin> set objectPrototypeKeys"
  shows "\<exists>m'. forEach m es = Inr m'
           \<and> (\<forall>k. m' k = (if filter (\<lambda>e. date e = k) es = [] then m k
                         else Some (ownOrEmpty m k @ filter (\<lambda>e. date e = k) es)))"
  using assms
proof (induction es arbitrary: m)
  case Nil
  then show ?case by simp
next
  case (Cons e es)
  let ?m1 = "m(date e \<mapsto> ownOrEmpty m (date e) @ [e])"
  have step: "groupStep m e = Inr ?m1"
    using Cons.prems by (simp add: groupStep_own)
  have rest: "\<forall>e\<in>set es. date e \<notin> set objectPrototypeKeys"
    using Cons.prems by simp
  from Cons.IH [OF rest, of ?m1] obtain m' where
    m': "forEach ?m1 es = Inr m'"
    "\<And>k. m' k = (if filter (\<lambda>e. date e = k) es = [] then ?m1 k
                   else Some (ownOrEmpty ?m1 k @ filter (\<lambda>e. date e = k) es))"
    by blast
  have "forEach m (e # es) = Inr m'"
    using step m'(1) by simp
  moreover have "m' k = (if filter (\<lambda>x. date x = k) (e # es) = [] then m k
                         else Some (ownOrEmpty m k @ filter (\<lambda>x. date x = k) (e # es)))" for k
    by (simp add: m'(2) ownOrEmpty_def)
  ultimately show ?case by blast
qed

lemma groupEventsByDate_own:
  assumes "\<forall>e\<in>set events. date e \<notin> set objectPrototypeKeys"
  shows "\<exists>index. groupEventsByDate events = Inr index
           \<and> (\<forall>k. index k = (if filter (\<lambda>e. date e = k) events = [] then None
                            else Some (filter (\<lambda>e. date e = k) events)))"
proof -
  have empty: "ownOrEmpty Map.empty k = []" for k
    by (simp add: ownOrEmpty_def)
  from forEach_own [OF assms, of Map.empty] obtain index where
    ix: "forEach Map.empty events = Inr index"
    "\<And>k. index k = (if filter (\<lambda>e. date e = k) events = [] then None
                   else Some (ownOrEmpty Map.empty k @ filter (\<lambda>e. date e = k) events))"
    by blast
  have "index k = (if filter (\<lambda>e. date e = k) events = [] then None
                   else Some (filter (\<lambda>e. date e = k) events))" for k
    by (cases "filter (\<lambda>e. date e = k) events = []") (simp_all add: ix(2) empty)
  with ix(1) show ?thesis
    unfolding groupEventsByDate_def by blast
qed

text \<open>
  Claim C6. For events whose dates are date keys and for a date key \<open>k\<close>, grouping
  succeeds and looking \<open>k\<close> up gives the events of that date in the order of the input:
  no event when no event has the key, and every event is found under its own date.
\<close>

theorem lookup_groupEventsByDate:
  assumes "\<forall>e\<in>set events. isDateKey (date e)" and "isDateKey k"
  shows "\<exists>index. groupEventsByDate events = Inr index
           \<and> lookup index k = Events (filter (\<lambda>e. date e = k) events)
           \<and> ((\<forall>e\<in>set events. date e \<noteq> k) \<longrightarrow> lookup index k = Events [])
           \<and> (\<forall>e\<in>set events. \<exists>xs. lookup index (date e) = Events xs \<and> e \<in> set xs)"
proof -
  have "\<forall>e\<in>set events. date e \<notin> set objectPrototypeKeys"
    using assms(1) isDateKey_not_inherited by blast
  then obtain index where gr: "groupEventsByDate events = Inr index"
    and ix: "\<And>k. index k = (if filter (\<lambda>e. date e = k) events = [] then None
                            else Some (filter (\<lambda>e. date e = k) events))"
    using groupEventsByDate_own by blast
  have look: "lookup index k' = Events (filter (\<lambda>e. date e = k') events)" if "isDateKey k'" for k'
    using isDateKey_not_inherited [OF that]
    by (simp add: lookup_def getProperty_def ix)
  have "lookup index k = Events (filter (\<lambda>e. date e = k) events)"
    using assms(2) by (rule look)
  moreover have "lookup index k = Events []" if "\<forall>e\<in>set events. date e \<noteq> k"
  proof -
    have "filter (\<lambda>e. date e = k) events = []"
      using that by (simp add: filter_empty_conv)
    with look [OF assms(2)] show ?thesis by simp
  qed
  moreover have "\<exists>xs. lookup index (date e) = Events xs \<and> e \<in> set xs" if "e \<in> set events" for e
  proof -
    have "lookup index (date e) = Events (filter (\<lambda>x. date x = date e) events)"
      using assms(1) that by (intro look) blast
    moreover have "e \<in> set (filter (\<lambda>x. date x = date e) events)"
      using that by simp
    ultimately show ?thesis by blast
  qed
  ultimately show ?thesis using gr by blast
qed

text \<open>Three events on two dates, looked up under both dates and under a third one.\<close>

theorem lookup_groupEventsByDate_witness:
  "\<exists>index. groupEventsByDate
       [meetingOn ''2025-06-15'' ''09:00'', meetingOn ''2025-06-16'' ''09:00'',
        meetingOn ''2025-06-15'' ''11:00''] = Inr index
     \<and> lookup index (js ''2025-06-15'')
         = Events [meetingOn ''2025-06-15'' ''09:00'', meetingOn ''2025-06-15'' ''11:00'']
     \<and> lookup index (js ''2025-06-16'') = Events [meetingOn ''2025-06-16'' ''09:00'']
     \<and> lookup index (js ''2025-07-01'') = Events []"
proof -
  let ?evs = "[meetingOn ''2025-06-15'' ''09:00'', meetingOn ''2025-06-16'' ''09:00'',
        meetingOn ''2025-06-15'' ''11:00'']"
  have keys: "\<forall>e\<in>set ?evs. isDateKey (date e)"
    by (simp add: meetingOn_def js_def isDigit_def)
  have k: "isDateKey (js ''2025-06-15'')" "isDateKey (js ''2025-06-16'')"
    "isDateKey (js ''2025-07-01'')"
    by (simp_all add: js_def isDigit_def)
  have d: "js ''2025-06-15'' \<noteq> js ''2025-06-16''" "js ''2025-06-15'' \<noteq> js ''2025-07-01''"
    "js ''2025-06-16'' \<noteq> js ''2025-07-01''"
    by (simp_all add: js_def)
  from lookup_groupEventsByDate [OF keys k(1)] obtain index where
    "groupEventsByDate ?evs = Inr index"
    "lookup index (js ''2025-06-15'') = Events (filter (\<lambda>e. date e = js ''2025-06-15'') ?evs)"
    by blast
  moreover from lookup_groupEventsByDate [OF keys k(2)] calculation(1)
  have "lookup index (js ''2025-06-16'') = Events (filter (\<lambda>e. date e = js ''2025-06-16'') ?evs)"
    by auto
  moreover from lookup_groupEventsByDate [OF keys k(3)] calculation(1)
  have "lookup index (js ''2025-07-01'') = Events (filter (\<lambda>e. date e = js ''2025-07-01'') ?evs)"
    by auto
  ultimately show ?thesis
    using d d [symmetric] by (simp add: meetingOn_def)
qed

text \<open>
  The restriction to date keys matters: a date that is the name of an inherited property
  makes \<open>map[dateKey].push\<close> fail.
\<close>

lemma groupEventsByDate_inherited_key:
  "groupEventsByDate [meetingOn ''constructor'' ''09:00''] = Inl TypeError"
  by (simp add: groupEventsByDate_def groupStep_def getProperty_def meetingOn_def
      objectPrototypeKeys_def)

section \<open>Properties of the conflict detector\<close>

subsection \<open>What the two loops compute\<close>

lemma Math_min_commute: "Math_min a b = Math_min b a"
  by (cases a; cases b) (simp_all add: min.commute)

lemma Math_max_commute: "Math_max a b = Math_max b a"
  by (cases a; cases b) (simp_all add: max.commute)

lemma overlap_commute: "overlap N a b = overlap N b a"
  unfolding overlap_def Let_def
  by (subst Math_min_commute, subst Math_max_commute, rule refl)

lemma overlaps_commute: "overlaps N a b = overlaps N b a"
  unfolding overlaps_def by (subst overlap_commute) (rule refl)

lemma overlaps_conflict_update [simp]:
  "overlaps N (a\<lparr>conflict := c\<rparr>) b = overlaps N a b"
  "overlaps N a (b\<lparr>conflict := c\<rparr>) = overlaps N a b"
  by (simp_all add: overlaps_def overlap_def)

lemma overlaps_spread [simp]:
  "overlaps N (spread_conflict a c) (spread_conflict b c') = overlaps N a b"
  by (simp add: overlaps_def overlap_def spread_conflict_def)

lemma innerBody_nth:
  assumes "i < length rs" "j < length rs" "i \<noteq> j" "k < length rs"
    and "aStart = toMinutes N (startTime (rs ! i))"
    and "aEnd = num_add aStart (durationMinutes (rs ! i))"
  shows "innerBody N i aStart aEnd j rs ! k
           = (rs ! k)\<lparr>conflict := conflict (rs ! k)
                \<or> (overlaps N (rs ! i) (rs ! j) \<and> (k = i \<or> k = j))\<rparr>"
  using assms
  by (auto simp add: innerBody_def Let_def overlaps_def overlap_def nth_list_update)

lemma innerBody_fields:
  assumes "i < length rs" "j < length rs" "i \<noteq> j"
    and "aStart = toMinutes N (startTime (rs ! i))"
    and "aEnd = num_add aStart (durationMinutes (rs ! i))"
  shows "startTime (innerBody N i aStart aEnd j rs ! i) = startTime (rs ! i)"
    and "durationMinutes (innerBody N i aStart aEnd j rs ! i) = durationMinutes (rs ! i)"
    and "x < length rs \<Longrightarrow> y < length rs \<Longrightarrow>
         overlaps N (innerBody N i aStart aEnd j rs ! x) (innerBody N i aStart aEnd j rs ! y)
           = overlaps N (rs ! x) (rs ! y)"
  using assms by (simp_all add: innerBody_nth)

lemma innerFlag_step:
  assumes "i < j" "j < length rs" "k < length rs"
    and "aStart = toMinutes N (startTime (rs ! i))"
    and "aEnd = num_add aStart (durationMinutes (rs ! i))"
  shows "innerFlag N i (j + 1) (innerBody N i aStart aEnd j rs) k = innerFlag N i j rs k"
proof -
  have i: "i < length rs" "i \<noteq> j" using assms by auto
  let ?rs = "innerBody N i aStart aEnd j rs"
  have c: "conflict (?rs ! k) = (conflict (rs ! k) \<or> (overlaps N (rs ! i) (rs ! j) \<and> (k = i \<or> k = j)))"
    using assms i by (simp add: innerBody_nth)
  have o: "overlaps N (?rs ! i) (?rs ! l) = overlaps N (rs ! i) (rs ! l)" if "l < length rs" for l
    using innerBody_fields(3) [OF i(1) assms(2) i(2) assms(4) assms(5) i(1) that] .
  have e: "(\<exists>l. j \<le> l \<and> l < length rs \<and> overlaps N (rs ! i) (rs ! l))
      \<longleftrightarrow> overlaps N (rs ! i) (rs ! j) \<or> (\<exists>l. j + 1 \<le> l \<and> l < length rs \<and> overlaps N (rs ! i) (rs ! l))"
    using assms(2) by (metis Suc_eq_plus1 Suc_leI le_eq_less_or_eq order_refl less_or_eq_imp_le Suc_le_lessD)
  have e': "(\<exists>l. j + 1 \<le> l \<and> l < length ?rs \<and> overlaps N (?rs ! i) (?rs ! l))
      \<longleftrightarrow> (\<exists>l. j + 1 \<le> l \<and> l < length rs \<and> overlaps N (rs ! i) (rs ! l))"
    using o by (auto simp add: length_innerBody)
  have k: "(j \<le> k \<and> overlaps N (rs ! i) (rs ! k))
      \<longleftrightarrow> (k = j \<and> overlaps N (rs ! i) (rs ! j)) \<or> (j + 1 \<le> k \<and> overlaps N (rs ! i) (rs ! k))"
    by (cases "k = j") auto
  show ?thesis
    unfolding innerFlag_def e' c o [OF assms(3)]
    using e k by blast
qed

lemma innerLoop_nth:
  assumes "i < j" "i < length rs" "k < length rs"
    and "aStart = toMinutes N (startTime (rs ! i))"
    and "aEnd = num_add aStart (durationMinutes (rs ! i))"
  shows "innerLoop N i aStart aEnd j rs ! k = (rs ! k)\<lparr>conflict := innerFlag N i j rs k\<rparr>"
  using assms
proof (induction N i aStart aEnd j rs rule: innerLoop.induct)
  case (1 N i aStart aEnd j rs)
  show ?case
  proof (cases "j < length rs")
    case False
    then have "innerFlag N i j rs k = conflict (rs ! k)"
      using "1.prems" by (auto simp add: innerFlag_def)
    with False show ?thesis
      by (subst innerLoop.simps) simp
  next
    case True
    let ?rs = "innerBody N i aStart aEnd j rs"
    have ij: "i \<noteq> j" using "1.prems" by simp
    have "innerLoop N i aStart aEnd j rs ! k = innerLoop N i aStart aEnd (j + 1) ?rs ! k"
      using True by (subst innerLoop.simps) simp
    also have "\<dots> = (?rs ! k)\<lparr>conflict := innerFlag N i (j + 1) ?rs k\<rparr>"
      using "1.prems" True ij
      by (intro "1.IH") (simp_all add: length_innerBody innerBody_fields)
    also have "\<dots> = (?rs ! k)\<lparr>conflict := innerFlag N i j rs k\<rparr>"
      using "1.prems" True innerFlag_step [of i j rs k aStart N aEnd] by simp
    also have "\<dots> = (rs ! k)\<lparr>conflict := innerFlag N i j rs k\<rparr>"
      using "1.prems" True ij by (simp add: innerBody_nth)
    finally show ?thesis .
  qed
qed

lemma innerLoop_overlaps:
  assumes "i < j" "i < length rs" "x < length rs" "y < length rs"
    and "aStart = toMinutes N (startTime (rs ! i))"
    and "aEnd = num_add aStart (durationMinutes (rs ! i))"
  shows "overlaps N (innerLoop N i aStart aEnd j rs ! x) (innerLoop N i aStart aEnd j rs ! y)
           = overlaps N (rs ! x) (rs ! y)"
  using assms by (simp add: innerLoop_nth)

lemma ex_pair_cong:
  assumes "\<And>a b. a < b \<Longrightarrow> b < n \<Longrightarrow> P a b \<longleftrightarrow> Q a b"
  shows "(\<exists>a b. i \<le> a \<and> a < b \<and> b < n \<and> R a b \<and> P a b)
       \<longleftrightarrow> (\<exists>a b. i \<le> a \<and> a < b \<and> b < (n::nat) \<and> R a b \<and> Q a b)"
  using assms by blast

lemma outerFlag_step:
  assumes "i < length rs" "k < length rs"
    and "aStart = toMinutes N (startTime (rs ! i))"
    and "aEnd = num_add aStart (durationMinutes (rs ! i))"
  shows "outerFlag N (i + 1) (innerLoop N i aStart aEnd (i + 1) rs) k = outerFlag N i rs k"
proof -
  let ?rs = "innerLoop N i aStart aEnd (i + 1) rs"
  have c: "conflict (?rs ! k) = innerFlag N i (i + 1) rs k"
    using assms by (simp add: innerLoop_nth)
  have o: "overlaps N (?rs ! x) (?rs ! y) = overlaps N (rs ! x) (rs ! y)"
    if "x < length rs" "y < length rs" for x y
    using assms that by (simp add: innerLoop_overlaps)
  have rest: "(\<exists>a b. i + 1 \<le> a \<and> a < b \<and> b < length ?rs \<and> (k = a \<or> k = b)
                 \<and> overlaps N (?rs ! a) (?rs ! b))
      \<longleftrightarrow> (\<exists>a b. i + 1 \<le> a \<and> a < b \<and> b < length rs \<and> (k = a \<or> k = b)
                 \<and> overlaps N (rs ! a) (rs ! b))"
    unfolding length_innerLoop
    by (rule ex_pair_cong) (rule o, simp_all)
  have first: "innerFlag N i (i + 1) rs k
      \<longleftrightarrow> conflict (rs ! k)
          \<or> (\<exists>b. i < b \<and> b < length rs \<and> (k = i \<or> k = b) \<and> overlaps N (rs ! i) (rs ! b))"
    unfolding innerFlag_def using assms(2) by (auto simp add: Suc_le_eq)
  have split_a: "(\<exists>a b. i \<le> a \<and> a < b \<and> b < length rs \<and> (k = a \<or> k = b)
                 \<and> overlaps N (rs ! a) (rs ! b))
      \<longleftrightarrow> (\<exists>b. i < b \<and> b < length rs \<and> (k = i \<or> k = b) \<and> overlaps N (rs ! i) (rs ! b))
          \<or> (\<exists>a b. i + 1 \<le> a \<and> a < b \<and> b < length rs \<and> (k = a \<or> k = b)
                 \<and> overlaps N (rs ! a) (rs ! b))"
    (is "?L \<longleftrightarrow> ?A \<or> ?B")
  proof
    assume ?L
    then obtain a b where ab: "i \<le> a" "a < b" "b < length rs" "k = a \<or> k = b"
      "overlaps N (rs ! a) (rs ! b)" by blast
    show "?A \<or> ?B"
    proof (cases "a = i")
      case True
      with ab have ?A by blast
      then show ?thesis ..
    next
      case False
      with ab have "i + 1 \<le> a" by simp
      with ab have ?B by blast
      then show ?thesis ..
    qed
  next
    assume "?A \<or> ?B"
    then show ?L
    proof
      assume ?A
      then obtain b where "i < b" "b < length rs" "k = i \<or> k = b"
        "overlaps N (rs ! i) (rs ! b)" by blast
      then have "i \<le> i \<and> i < b \<and> b < length rs \<and> (k = i \<or> k = b)
          \<and> overlaps N (rs ! i) (rs ! b)" by simp
      then show ?L by blast
    next
      assume ?B
      then obtain a b where "i + 1 \<le> a" "a < b" "b < length rs" "k = a \<or> k = b"
        "overlaps N (rs ! a) (rs ! b)" by blast
      moreover from this have "i \<le> a" by simp
      ultimately show ?L by blast
    qed
  qed
  show ?thesis
    unfolding outerFlag_def rest c first split_a by blast
qed

lemma outerLoop_nth:
  assumes "k < length rs"
  shows "outerLoop N i rs ! k = (rs ! k)\<lparr>conflict := outerFlag N i rs k\<rparr>"
  using assms
proof (induction N i rs rule: outerLoop.induct)
  case (1 N i rs)
  show ?case
  proof (cases "i < length rs")
    case False
    then have "outerFlag N i rs k = conflict (rs ! k)"
      by (auto simp add: outerFlag_def)
    with False show ?thesis
      by (subst outerLoop.simps) simp
  next
    case True
    define aStart where "aStart = toMinutes N (startTime (rs ! i))"
    define aEnd where "aEnd = num_add aStart (durationMinutes (rs ! i))"
    let ?rs = "innerLoop N i aStart aEnd (i + 1) rs"
    have "outerLoop N i rs ! k = outerLoop N (i + 1) ?rs ! k"
      using True by (subst outerLoop.simps) (simp add: Let_def aStart_def aEnd_def)
    also have "\<dots> = (?rs ! k)\<lparr>conflict := outerFlag N (i + 1) ?rs k\<rparr>"
      using "1.IH" [OF True aStart_def aEnd_def] "1.prems"
      by (simp add: length_innerLoop)
    also have "\<dots> = (?rs ! k)\<lparr>conflict := outerFlag N i rs k\<rparr>"
      using outerFlag_step [OF True "1.prems" aStart_def aEnd_def] by simp
    also have "\<dots> = (rs ! k)\<lparr>conflict := outerFlag N i rs k\<rparr>"
      using True "1.prems" by (simp add: innerLoop_nth aStart_def aEnd_def)
    finally show ?thesis .
  qed
qed

lemma length_outerLoop: "length (outerLoop N i rs) = length rs"
proof (induction N i rs rule: outerLoop.induct)
  case (1 N i rs)
  show ?case
  proof (cases "i < length rs")
    case True
    then show ?thesis
      using 1 by (subst outerLoop.simps) (simp add: Let_def length_innerLoop)
  next
    case False
    then show ?thesis by (subst outerLoop.simps) simp
  qed
qed

lemma length_detectConflicts: "length (detectConflicts N evs) = length evs"
  by (simp add: detectConflicts_def length_outerLoop)

lemma detectConflicts_nth:
  assumes "k < length evs"
  shows "detectConflicts N evs ! k = spread_conflict (evs ! k) (conflicting N evs k)"
proof -
  let ?rs = "map (\<lambda>e. spread_conflict e False) evs"
  have "(\<exists>a b. 0 \<le> a \<and> a < b \<and> b < length evs \<and> (k = a \<or> k = b)
            \<and> overlaps N (?rs ! a) (?rs ! b))
      \<longleftrightarrow> (\<exists>a b. 0 \<le> a \<and> a < b \<and> b < length evs \<and> (k = a \<or> k = b)
            \<and> overlaps N (evs ! a) (evs ! b))"
    by (rule ex_pair_cong) simp
  moreover have "conflict (?rs ! k) = False"
    using assms by (simp add: spread_conflict_def)
  ultimately have "outerFlag N 0 ?rs k
      \<longleftrightarrow> (\<exists>a b. a < b \<and> b < length evs \<and> (k = a \<or> k = b) \<and> overlaps N (evs ! a) (evs ! b))"
    unfolding outerFlag_def by simp
  also have "\<dots> \<longleftrightarrow> (\<exists>l<length evs. l \<noteq> k \<and> overlaps N (evs ! k) (evs ! l))"
    (is "?L \<longleftrightarrow> ?R")
  proof
    assume ?L
    then obtain a b where ab: "a < b" "b < length evs" "k = a \<or> k = b"
      "overlaps N (evs ! a) (evs ! b)" by blast
    from ab(3) show ?R
    proof
      assume "k = a"
      with ab show ?R by blast
    next
      assume "k = b"
      moreover have "overlaps N (evs ! b) (evs ! a)"
        using ab(4) overlaps_commute by blast
      moreover have "a < length evs" "a \<noteq> b" using ab by simp_all
      ultimately show ?R by blast
    qed
  next
    assume ?R
    then obtain l where l: "l < length evs" "l \<noteq> k" "overlaps N (evs ! k) (evs ! l)"
      by blast
    show ?L
    proof (cases "k < l")
      case True
      with l show ?thesis by blast
    next
      case False
      with l have "l < k" by simp
      moreover have "overlaps N (evs ! l) (evs ! k)"
        using l(3) overlaps_commute by blast
      ultimately show ?thesis using assms by blast
    qed
  qed
  finally have flag: "outerFlag N 0 ?rs k = conflicting N evs k"
    by (simp add: conflicting_def overlaps_def)
  have "detectConflicts N evs ! k = (?rs ! k)\<lparr>conflict := outerFlag N 0 ?rs k\<rparr>"
    using assms by (simp add: detectConflicts_def outerLoop_nth)
  with assms flag show ?thesis
    by (simp add: spread_conflict_def)
qed

subsection \<open>The claims about the flags\<close>

lemma conflict_spread [simp]: "conflict (spread_conflict e c) = c"
  by (simp add: spread_conflict_def)

lemma overlap_le_zero:
  assumes "num_add (toMinutes N (startTime a)) (durationMinutes a) = toMinutes N (startTime b)
           \<or> durationMinutes a = Num 0"
  shows "\<not> num_gt (overlap N a b) (Num 0)"
  using assms
  by (cases "toMinutes N (startTime a)"; cases "durationMinutes a";
      cases "toMinutes N (startTime b)"; cases "durationMinutes b")
    (auto simp add: overlap_def Let_def)

lemma overlap_identical:
  assumes "toMinutes N (startTime a) = Num s" "toMinutes N (startTime b) = Num s"
    "durationMinutes a = Num d" "durationMinutes b = Num d" "0 < d"
  shows "num_gt (overlap N a b) (Num 0)"
  using assms by (simp add: overlap_def Let_def)

lemma conflicting_pair:
  "conflicting N [a, b] 0 = num_gt (overlap N a b) (Num 0)"
  "conflicting N [a, b] (Suc 0) = num_gt (overlap N b a) (Num 0)"
  by (auto simp add: conflicting_def less_Suc_eq numeral_2_eq_2)

lemma detectConflicts_pair:
  "map conflict (detectConflicts N [a, b])
     = [num_gt (overlap N a b) (Num 0), num_gt (overlap N b a) (Num 0)]"
proof -
  have "length (detectConflicts N [a, b]) = 2"
    by (simp add: length_detectConflicts)
  moreover have "conflict (detectConflicts N [a, b] ! 0) = num_gt (overlap N a b) (Num 0)"
    by (simp add: detectConflicts_nth conflicting_pair)
  moreover have "conflict (detectConflicts N [a, b] ! Suc 0) = num_gt (overlap N b a) (Num 0)"
    by (simp add: detectConflicts_nth conflicting_pair)
  ultimately show ?thesis
    by (auto simp add: list_eq_iff_nth_eq less_Suc_eq numeral_2_eq_2)
qed

lemma detectConflicts_single: "map conflict (detectConflicts N [e]) = [False]"
proof -
  have "length (detectConflicts N [e]) = 1"
    by (simp add: length_detectConflicts)
  moreover have "conflict (detectConflicts N [e] ! 0) = False"
    by (simp add: detectConflicts_nth conflicting_def)
  ultimately show ?thesis
    by (auto simp add: list_eq_iff_nth_eq)
qed

text \<open>
  Claim C1. An event of the result is flagged exactly when another event of the same
  list has a positive overlap with it, the overlap of two events being
  \<open>max(0, min(endA, endB) - max(startA, startB))\<close> with \<open>end = start + durationMinutes\<close>.
  So a list of one event has no flag; two events with the same start and the same
  positive duration are both flagged; two events of which one ends when the other starts
  are not flagged; an event of duration zero is never flagged.
\<close>

theorem detectConflicts_flags:
  "(\<forall>k<length evs. conflict (detectConflicts N evs ! k)
       \<longleftrightarrow> (\<exists>l<length evs. l \<noteq> k \<and> num_gt (overlap N (evs ! k) (evs ! l)) (Num 0)))
   \<and> map conflict (detectConflicts N [e]) = [False]
   \<and> (toMinutes N (startTime a) = Num s \<and> toMinutes N (startTime b) = Num s
        \<and> durationMinutes a = Num d \<and> durationMinutes b = Num d \<and> 0 < d
      \<longrightarrow> map conflict (detectConflicts N [a, b]) = [True, True])
   \<and> (num_add (toMinutes N (startTime a)) (durationMinutes a) = toMinutes N (startTime b)
      \<longrightarrow> map conflict (detectConflicts N [a, b]) = [False, False]
          \<and> map conflict (detectConflicts N [b, a]) = [False, False])
   \<and> (\<forall>k<length evs. durationMinutes (evs ! k) = Num 0
      \<longrightarrow> \<not> conflict (detectConflicts N evs ! k))"
proof (intro conjI allI impI)
  fix k assume "k < length evs"
  then show "conflict (detectConflicts N evs ! k)
      \<longleftrightarrow> (\<exists>l<length evs. l \<noteq> k \<and> num_gt (overlap N (evs ! k) (evs ! l)) (Num 0))"
    by (simp add: detectConflicts_nth conflicting_def)
next
  show "map conflict (detectConflicts N [e]) = [False]"
    by (rule detectConflicts_single)
next
  assume "toMinutes N (startTime a) = Num s \<and> toMinutes N (startTime b) = Num s
        \<and> durationMinutes a = Num d \<and> durationMinutes b = Num d \<and> 0 < d"
  then show "map conflict (detectConflicts N [a, b]) = [True, True]"
    by (simp add: detectConflicts_pair overlap_identical)
next
  assume bb: "num_add (toMinutes N (startTime a)) (durationMinutes a) = toMinutes N (startTime b)"
  then have "\<not> num_gt (overlap N a b) (Num 0)"
    by (simp add: overlap_le_zero)
  moreover from this have "\<not> num_gt (overlap N b a) (Num 0)"
    by (subst overlap_commute)
  ultimately show "map conflict (detectConflicts N [a, b]) = [False, False]"
    and "map conflict (detectConflicts N [b, a]) = [False, False]"
    by (simp_all add: detectConflicts_pair)
next
  fix k assume "k < length evs" "durationMinutes (evs ! k) = Num 0"
  then show "\<not> conflict (detectConflicts N evs ! k)"
    by (simp add: detectConflicts_nth conflicting_def overlap_le_zero)
qed

lemma toMinutes_examples:
  "toMinutes Number_decimal (js ''09:00'') = Num 540"
  "toMinutes Number_decimal (js ''09:30'') = Num 570"
  "toMinutes Number_decimal (js ''10:00'') = Num 600"
  "toMinutes Number_decimal (js ''10:30'') = Num 630"
  by (simp_all add: toMinutes_def js_def Number_decimal_def elem_def isDigit_def digitsValue_def)

lemma overlap_examples:
  "overlap Number_decimal (meeting ''09:00'' 60) (meeting ''09:30'' 30) = Num 30"
  "overlap Number_decimal (meeting ''09:00'' 60) (meeting ''10:30'' 30) = Num 0"
  "overlap Number_decimal (meeting ''09:30'' 30) (meeting ''09:00'' 60) = Num 30"
  "overlap Number_decimal (meeting ''09:30'' 30) (meeting ''10:30'' 30) = Num 0"
  "overlap Number_decimal (meeting ''10:30'' 30) (meeting ''09:00'' 60) = Num 0"
  "overlap Number_decimal (meeting ''10:30'' 30) (meeting ''09:30'' 30) = Num 0"
  by (simp_all add: overlap_def meeting_def toMinutes_examples)

text \<open>
  The day of the specification: 09:00 for 60 minutes and 09:30 for 30 minutes are flagged,
  10:30 for 30 minutes is not. Two meetings at 09:00 for 60 minutes are both flagged;
  09:00 for 60 minutes and 10:00 touch and are not; a meeting of no duration inside
  another one is not flagged.
\<close>

theorem detectConflicts_flags_witness:
  "map conflict (detectConflicts Number_decimal
       [meeting ''09:00'' 60, meeting ''09:30'' 30, meeting ''10:30'' 30]) = [True, True, False]
   \<and> map conflict (detectConflicts Number_decimal
       [meeting ''09:00'' 60, meeting ''09:00'' 60]) = [True, True]
   \<and> map conflict (detectConflicts Number_decimal
       [meeting ''09:00'' 60, meeting ''10:00'' 30]) = [False, False]
   \<and> conflict (detectConflicts Number_decimal
       [meeting ''09:00'' 60, meeting ''09:30'' 0] ! 1) = False"
proof -
  let ?N = Number_decimal
  let ?day = "[meeting ''09:00'' 60, meeting ''09:30'' 30, meeting ''10:30'' 30]"
  note F = detectConflicts_flags
  have flags: "conflict (detectConflicts ?N ?day ! k)
      \<longleftrightarrow> (\<exists>l<length ?day. l \<noteq> k \<and> num_gt (overlap ?N (?day ! k) (?day ! l)) (Num 0))"
    if "k < length ?day" for k
    using F [of ?day ?N, THEN conjunct1, rule_format, OF that] .
  have "conflict (detectConflicts ?N ?day ! 0)"
    using flags [of 0] by (simp add: overlap_examples) (rule exI [of _ 1], simp add: overlap_examples)
  moreover have "conflict (detectConflicts ?N ?day ! 1)"
    using flags [of 1] by (simp add: overlap_examples) (rule exI [of _ 0], simp add: overlap_examples)
  moreover have "\<not> conflict (detectConflicts ?N ?day ! 2)"
    using flags [of 2] by (auto simp add: overlap_examples less_Suc_eq numeral_3_eq_3)
  moreover have "length (detectConflicts ?N ?day) = 3"
    by (simp add: length_detectConflicts)
  ultimately have three: "map conflict (detectConflicts ?N ?day) = [True, True, False]"
    by (auto simp add: list_eq_iff_nth_eq less_Suc_eq numeral_3_eq_3 numeral_2_eq_2)
  have same: "map conflict (detectConflicts ?N [meeting ''09:00'' 60, meeting ''09:00'' 60])
      = [True, True]"
    using F [of _ ?N _ "meeting ''09:00'' 60" 540 "meeting ''09:00'' 60" 60,
        THEN conjunct2, THEN conjunct2, THEN conjunct1]
    by (simp add: meeting_def toMinutes_examples)
  have touch: "map conflict (detectConflicts ?N [meeting ''09:00'' 60, meeting ''10:00'' 30])
      = [False, False]"
    using F [of _ ?N _ "meeting ''09:00'' 60" _ "meeting ''10:00'' 30",
        THEN conjunct2, THEN conjunct2, THEN conjunct2, THEN conjunct1]
    by (simp add: meeting_def toMinutes_examples)
  have zero: "conflict (detectConflicts ?N [meeting ''09:00'' 60, meeting ''09:30'' 0] ! 1) = False"
    using F [of "[meeting ''09:00'' 60, meeting ''09:30'' 0]" ?N,
        THEN conjunct2, THEN conjunct2, THEN conjunct2, THEN conjunct2, rule_format, of 1]
    by (simp add: meeting_def)
  from three same touch zero show ?thesis by simp
qed

text \<open>
  Claim C8. When the event at position \<open>i\<close> overlaps the event at another position \<open>j\<close>,
  both are flagged, and the overlap of \<open>j\<close> with \<open>i\<close> is positive as well.
\<close>

theorem detectConflicts_symmetric:
  assumes "i < length evs" "j < length evs" "i \<noteq> j"
    and "num_gt (overlap N (evs ! i) (evs ! j)) (Num 0)"
  shows "conflict (detectConflicts N evs ! i) \<and> conflict (detectConflicts N evs ! j)
         \<and> num_gt (overlap N (evs ! j) (evs ! i)) (Num 0)"
proof -
  have swapped: "num_gt (overlap N (evs ! j) (evs ! i)) (Num 0)"
    using assms(4) by (subst overlap_commute)
  have "conflicting N evs i"
    unfolding conflicting_def using assms by blast
  moreover have "conflicting N evs j"
    unfolding conflicting_def using assms swapped by blast
  ultimately show ?thesis
    using assms swapped by (simp add: detectConflicts_nth)
qed

text \<open>09:00 for 60 minutes and 09:30 for 30 minutes, first and third of a day.\<close>

theorem detectConflicts_symmetric_witness:
  "num_gt (overlap Number_decimal (meeting ''09:00'' 60) (meeting ''09:30'' 30)) (Num 0)
   \<and> conflict (detectConflicts Number_decimal
         [meeting ''09:00'' 60, meeting ''10:30'' 30, meeting ''09:30'' 30] ! 0)
   \<and> conflict (detectConflicts Number_decimal
         [meeting ''09:00'' 60, meeting ''10:30'' 30, meeting ''09:30'' 30] ! 2)
   \<and> num_gt (overlap Number_decimal (meeting ''09:30'' 30) (meeting ''09:00'' 60)) (Num 0)"
  using detectConflicts_symmetric [of 0
      "[meeting ''09:00'' 60, meeting ''10:30'' 30, meeting ''09:30'' 30]" 2 Number_decimal]
  by (simp add: overlap_examples)

section \<open>Properties of the conflict detector on the store\<close>

lemma flagsOnly_refl: "flagsOnly a h h"
  by (simp add: flagsOnly_def)

lemma flagsOnly_trans: "flagsOnly a h h1 \<Longrightarrow> flagsOnly a h1 h2 \<Longrightarrow> flagsOnly a h h2"
  by (simp add: flagsOnly_def)

lemma flagsOnly_setConflict: "r \<in> set (arrs h a) \<Longrightarrow> flagsOnly a h (setConflict r h)"
  by (auto simp add: flagsOnly_def setConflict_def)

lemma view_setConflict:
  "view (setConflict r h) r' = (if r' = r then (view h r')\<lparr>conflict := True\<rparr> else view h r')"
  by (simp add: view_def setConflict_def spread_conflict_def)

lemma viewArr_setConflict:
  assumes "distinct (arrs h a)" "i < length (arrs h a)"
  shows "viewArr (setConflict (arrs h a ! i) h) a
           = (viewArr h a)[i := (viewArr h a ! i)\<lparr>conflict := True\<rparr>]"
proof (rule nth_equalityI)
  show "length (viewArr (setConflict (arrs h a ! i) h) a)
      = length ((viewArr h a)[i := (viewArr h a ! i)\<lparr>conflict := True\<rparr>])"
    by (simp add: viewArr_def)
next
  fix k assume "k < length (viewArr (setConflict (arrs h a ! i) h) a)"
  then have k: "k < length (arrs h a)" by (simp add: viewArr_def)
  have "arrs h a ! k = arrs h a ! i \<longleftrightarrow> k = i"
    using assms k by (simp add: nth_eq_iff_index_eq)
  with k assms(2)
  show "viewArr (setConflict (arrs h a ! i) h) a ! k
      = (viewArr h a)[i := (viewArr h a ! i)\<lparr>conflict := True\<rparr>] ! k"
    by (simp add: viewArr_def view_setConflict nth_list_update)
qed

lemma view_fields:
  "startTime (view h r) = startTime (fst (objs h r))"
  "durationMinutes (view h r) = durationMinutes (fst (objs h r))"
  by (simp_all add: view_def spread_conflict_def)

lemma innerBodyH_sim:
  assumes "distinct (arrs h a)" "i < length (arrs h a)" "j < length (arrs h a)"
  shows "viewArr (innerBodyH N i aStart aEnd j a h) a = innerBody N i aStart aEnd j (viewArr h a)"
    and "flagsOnly a h (innerBodyH N i aStart aEnd j a h)"
proof -
  let ?h1 = "setConflict (arrs h a ! i) h"
  have v1: "viewArr ?h1 a = (viewArr h a)[i := (viewArr h a ! i)\<lparr>conflict := True\<rparr>]"
    using assms by (rule_tac viewArr_setConflict)
  have v2: "viewArr (setConflict (arrs ?h1 a ! j) ?h1) a
      = (viewArr ?h1 a)[j := (viewArr ?h1 a ! j)\<lparr>conflict := True\<rparr>]"
    using assms by (intro viewArr_setConflict) simp_all
  have nth: "viewArr h a ! j = view h (arrs h a ! j)"
    using assms by (simp add: viewArr_def)
  show "viewArr (innerBodyH N i aStart aEnd j a h) a = innerBody N i aStart aEnd j (viewArr h a)"
    unfolding innerBodyH_def innerBody_def Let_def nth view_fields
    using v1 v2 by simp
  have "flagsOnly a h ?h1"
    using assms by (simp add: flagsOnly_setConflict)
  moreover have "flagsOnly a ?h1 (setConflict (arrs ?h1 a ! j) ?h1)"
    using assms by (intro flagsOnly_setConflict) simp
  ultimately have "flagsOnly a h (setConflict (arrs ?h1 a ! j) ?h1)"
    by (rule flagsOnly_trans)
  then show "flagsOnly a h (innerBodyH N i aStart aEnd j a h)"
    by (simp add: innerBodyH_def Let_def flagsOnly_refl)
qed

lemma flagsOnly_arrs: "flagsOnly a h h' \<Longrightarrow> arrs h' = arrs h"
  by (simp add: flagsOnly_def)

lemma innerLoopH_sim:
  assumes "distinct (arrs h a)" "i < length (arrs h a)"
  shows "viewArr (innerLoopH N i aStart aEnd j a h) a = innerLoop N i aStart aEnd j (viewArr h a)
         \<and> flagsOnly a h (innerLoopH N i aStart aEnd j a h)"
  using assms
proof (induction N i aStart aEnd j a h rule: innerLoopH.induct)
  case (1 N i aStart aEnd j a h)
  show ?case
  proof (cases "j < length (arrs h a)")
    case False
    then have "innerLoopH N i aStart aEnd j a h = h"
      by (subst innerLoopH.simps) simp
    moreover from False have "innerLoop N i aStart aEnd j (viewArr h a) = viewArr h a"
      by (subst innerLoop.simps) (simp add: viewArr_def)
    ultimately show ?thesis
      by (simp add: flagsOnly_refl)
  next
    case True
    let ?h1 = "innerBodyH N i aStart aEnd j a h"
    have body: "viewArr ?h1 a = innerBody N i aStart aEnd j (viewArr h a)" "flagsOnly a h ?h1"
      using "1.prems" True by (simp_all add: innerBodyH_sim)
    have "viewArr (innerLoopH N i aStart aEnd (j + 1) a ?h1) a
            = innerLoop N i aStart aEnd (j + 1) (viewArr ?h1 a)
          \<and> flagsOnly a ?h1 (innerLoopH N i aStart aEnd (j + 1) a ?h1)"
      using "1.prems" True by (intro "1.IH") simp_all
    moreover have "innerLoopH N i aStart aEnd j a h = innerLoopH N i aStart aEnd (j + 1) a ?h1"
      using True by (subst innerLoopH.simps) simp
    moreover have "innerLoop N i aStart aEnd j (viewArr h a)
        = innerLoop N i aStart aEnd (j + 1) (innerBody N i aStart aEnd j (viewArr h a))"
      using True by (subst innerLoop.simps) (simp add: viewArr_def)
    ultimately show ?thesis
      using body flagsOnly_trans [OF body(2)] by simp
  qed
qed

lemma arrs_outerLoopH [simp]: "arrs (outerLoopH N i a h) = arrs h"
proof (induction N i a h rule: outerLoopH.induct)
  case (1 N i a h)
  show ?case
  proof (cases "i < length (arrs h a)")
    case True
    then show ?thesis using 1 by (subst outerLoopH.simps) (simp add: Let_def)
  next
    case False
    then show ?thesis by (subst outerLoopH.simps) simp
  qed
qed

lemma outerLoopH_sim:
  assumes "distinct (arrs h a)"
  shows "viewArr (outerLoopH N i a h) a = outerLoop N i (viewArr h a)
         \<and> flagsOnly a h (outerLoopH N i a h)"
  using assms
proof (induction N i a h rule: outerLoopH.induct)
  case (1 N i a h)
  show ?case
  proof (cases "i < length (arrs h a)")
    case False
    then have "outerLoopH N i a h = h"
      by (subst outerLoopH.simps) simp
    moreover from False have "outerLoop N i (viewArr h a) = viewArr h a"
      by (subst outerLoop.simps) (simp add: viewArr_def)
    ultimately show ?thesis
      by (simp add: flagsOnly_refl)
  next
    case True
    define aStart where "aStart = toMinutes N (startTime (fst (objs h (arrs h a ! i))))"
    define aEnd where "aEnd = num_add aStart (durationMinutes (fst (objs h (arrs h a ! i))))"
    let ?h1 = "innerLoopH N i aStart aEnd (i + 1) a h"
    have inner: "viewArr ?h1 a = innerLoop N i aStart aEnd (i + 1) (viewArr h a)"
      "flagsOnly a h ?h1"
      using "1.prems" True innerLoopH_sim [of h a i N aStart aEnd "i + 1"] by simp_all
    have "viewArr (outerLoopH N (i + 1) a ?h1) a = outerLoop N (i + 1) (viewArr ?h1 a)
          \<and> flagsOnly a ?h1 (outerLoopH N (i + 1) a ?h1)"
      using "1.prems" True by (intro "1.IH" [OF True aStart_def aEnd_def]) simp
    moreover have "outerLoopH N i a h = outerLoopH N (i + 1) a ?h1"
      using True by (subst outerLoopH.simps) (simp add: Let_def aStart_def aEnd_def)
    moreover have "outerLoop N i (viewArr h a)
        = outerLoop N (i + 1) (innerLoop N i aStart aEnd (i + 1) (viewArr h a))"
      using True
      by (subst outerLoop.simps)
        (simp add: Let_def viewArr_def view_fields aStart_def aEnd_def)
    ultimately show ?thesis
      using inner flagsOnly_trans [OF inner(2)] by simp
  qed
qed

lemma mapSpread_spec:
  assumes "\<forall>e\<in>set es. e < nextObj h"
  shows "fst (mapSpread es h) = [nextObj h ..< nextObj h + length es]
       \<and> nextObj (snd (mapSpread es h)) = nextObj h + length es
       \<and> arrs (snd (mapSpread es h)) = arrs h
       \<and> nextArr (snd (mapSpread es h)) = nextArr h
       \<and> (\<forall>r<nextObj h. objs (snd (mapSpread es h)) r = objs h r)
       \<and> (\<forall>k<length es. objs (snd (mapSpread es h)) (nextObj h + k)
              = (fst (objs h (es ! k)), Some False))"
  using assms
proof (induction es arbitrary: h)
  case Nil
  then show ?case by simp
next
  case (Cons e es)
  define h1 where "h1 = h\<lparr>objs := (objs h)(nextObj h := (fst (objs h e), Some False)),
                          nextObj := nextObj h + 1\<rparr>"
  have h1: "nextObj h1 = nextObj h + 1" "arrs h1 = arrs h" "nextArr h1 = nextArr h"
    "\<And>r. r < nextObj h \<Longrightarrow> objs h1 r = objs h r"
    "objs h1 (nextObj h) = (fst (objs h e), Some False)"
    by (simp_all add: h1_def)
  have "\<forall>x\<in>set es. x < nextObj h1"
    using Cons.prems h1(1) by auto
  note IH = Cons.IH [OF this]
  have step: "mapSpread (e # es) h = (nextObj h # fst (mapSpread es h1), snd (mapSpread es h1))"
    by (simp add: newObject_def h1_def split: prod.splits)
  have upt: "[nextObj h ..< nextObj h + length (e # es)]
      = nextObj h # [nextObj h1 ..< nextObj h1 + length es]"
    by (simp add: h1(1) upt_conv_Cons del: upt_Suc)
  have a: "fst (mapSpread (e # es) h) = [nextObj h ..< nextObj h + length (e # es)]"
    unfolding step upt using IH by simp
  have b: "nextObj (snd (mapSpread (e # es) h)) = nextObj h + length (e # es)"
    "arrs (snd (mapSpread (e # es) h)) = arrs h"
    "nextArr (snd (mapSpread (e # es) h)) = nextArr h"
    unfolding step using IH h1 by simp_all
  have c: "objs (snd (mapSpread (e # es) h)) r = objs h r" if "r < nextObj h" for r
    unfolding step using IH h1 that by simp
  have d: "objs (snd (mapSpread (e # es) h)) (nextObj h + k)
      = (fst (objs h ((e # es) ! k)), Some False)" if "k < length (e # es)" for k
  proof (cases k)
    case 0
    have "objs (snd (mapSpread es h1)) (nextObj h) = objs h1 (nextObj h)"
      using IH h1(1) by simp
    with 0 h1(5) show ?thesis unfolding step by simp
  next
    case (Suc k')
    with that have k': "k' < length es" by simp
    then have "es ! k' \<in> set es" by simp
    with Cons.prems have "es ! k' < nextObj h" by simp
    then have "objs h1 (es ! k') = objs h (es ! k')" by (rule h1(4))
    moreover have "objs (snd (mapSpread es h1)) (nextObj h1 + k')
        = (fst (objs h1 (es ! k')), Some False)"
      using IH k' by simp
    ultimately show ?thesis
      unfolding step using Suc h1(1) by simp
  qed
  from a b c d show ?case by blast
qed

lemma truncate_spread: "event.truncate (spread_conflict e c) = e"
  by (simp add: event.truncate_def spread_conflict_def)

lemma detectConflictsH_sim:
  assumes "\<forall>e\<in>set (arrs h eventsForDay). e < nextObj h"
    and "detectConflictsH N eventsForDay h = (results, h')"
  shows "results = nextArr h"
    and "viewArr h' results
           = detectConflicts N (map (\<lambda>e. fst (objs h e)) (arrs h eventsForDay))"
    and "\<And>a. a < nextArr h \<Longrightarrow> arrs h' a = arrs h a"
    and "\<And>r. r < nextObj h \<Longrightarrow> objs h' r = objs h r"
proof -
  let ?es = "arrs h eventsForDay"
  define rs where "rs = fst (mapSpread ?es h)"
  define h1 where "h1 = snd (mapSpread ?es h)"
  define h2 where "h2 = h1\<lparr>arrs := (arrs h1)(nextArr h1 := rs), nextArr := nextArr h1 + 1\<rparr>"
  have ms: "rs = [nextObj h ..< nextObj h + length ?es]"
    "arrs h1 = arrs h" "nextArr h1 = nextArr h"
    "\<And>r. r < nextObj h \<Longrightarrow> objs h1 r = objs h r"
    "\<And>k. k < length ?es \<Longrightarrow> objs h1 (nextObj h + k) = (fst (objs h (?es ! k)), Some False)"
    using mapSpread_spec [OF assms(1)] by (simp_all add: rs_def h1_def)
  have res: "results = nextArr h" "h' = outerLoopH N 0 (nextArr h) h2"
    using assms(2) ms(3)
    by (auto simp add: detectConflictsH_def newArray_def rs_def h1_def h2_def split: prod.splits)
  show "results = nextArr h" by (rule res)
  have h2: "arrs h2 (nextArr h) = rs" "objs h2 = objs h1"
    "\<And>a. a \<noteq> nextArr h \<Longrightarrow> arrs h2 a = arrs h a"
    using ms(2,3) by (simp_all add: h2_def)
  have dist: "distinct (arrs h2 (nextArr h))"
    by (simp add: h2(1) ms(1))
  have sim: "viewArr h' (nextArr h) = outerLoop N 0 (viewArr h2 (nextArr h))"
    and fr: "flagsOnly (nextArr h) h2 h'"
    using outerLoopH_sim [OF dist, of N 0] by (simp_all add: res(2))
  have "viewArr h2 (nextArr h) = map (\<lambda>e. spread_conflict e False) (map (\<lambda>e. fst (objs h e)) ?es)"
  proof (rule nth_equalityI)
    show "length (viewArr h2 (nextArr h))
        = length (map (\<lambda>e. spread_conflict e False) (map (\<lambda>e. fst (objs h e)) ?es))"
      by (simp add: viewArr_def h2(1) ms(1))
  next
    fix k assume "k < length (viewArr h2 (nextArr h))"
    then have k: "k < length ?es" by (simp add: viewArr_def h2(1) ms(1))
    then show "viewArr h2 (nextArr h) ! k
        = map (\<lambda>e. spread_conflict e False) (map (\<lambda>e. fst (objs h e)) ?es) ! k"
      by (simp add: viewArr_def h2(1,2) ms(1) view_def ms(5))
  qed
  with sim show "viewArr h' results
      = detectConflicts N (map (\<lambda>e. fst (objs h e)) ?es)"
    by (simp add: res(1) detectConflicts_def)
  show "arrs h' a = arrs h a" if "a < nextArr h" for a
    using fr that h2(3) [of a] by (simp add: flagsOnly_def)
  show "objs h' r = objs h r" if "r < nextObj h" for r
  proof -
    have "r \<notin> set (arrs h2 (nextArr h))"
      using that by (simp add: h2(1) ms(1))
    with fr have "objs h' r = objs h2 r"
      by (simp add: flagsOnly_def)
    with that show ?thesis by (simp add: h2(2) ms(4))
  qed
qed

text \<open>
  Claim C9. Take a store in which the array \<open>eventsForDay\<close> and the objects it refers to
  exist. After \<open>detectConflicts\<close> the input array and every input object are as before,
  and so is every array and object that existed before the call. The objects of the
  result, read as annotated events, are the list that \<open>detectConflicts\<close> on values
  returns for the input events. That list has the length and the order of the input, and
  each of its records without the \<open>conflict\<close> field is the input event.
\<close>

theorem detectConflicts_frame:
  assumes "eventsForDay < nextArr h"
    and "\<forall>e\<in>set (arrs h eventsForDay). e < nextObj h"
    and "detectConflictsH N eventsForDay h = (results, h')"
  shows "arrs h' eventsForDay = arrs h eventsForDay
       \<and> (\<forall>e\<in>set (arrs h eventsForDay). objs h' e = objs h e)
       \<and> (\<forall>a<nextArr h. arrs h' a = arrs h a)
       \<and> (\<forall>r<nextObj h. objs h' r = objs h r)
       \<and> viewArr h' results
           = detectConflicts N (map (\<lambda>e. fst (objs h e)) (arrs h eventsForDay))
       \<and> length (detectConflicts N evs) = length evs
       \<and> map event.truncate (detectConflicts N evs) = evs"
proof -
  note sim = detectConflictsH_sim [OF assms(2,3)]
  have "arrs h' eventsForDay = arrs h eventsForDay"
    using assms(1) by (rule sim(3))
  moreover have "\<forall>e\<in>set (arrs h eventsForDay). objs h' e = objs h e"
    using assms(2) sim(4) by blast
  moreover have "map event.truncate (detectConflicts N evs) = evs"
    by (rule nth_equalityI)
      (simp_all add: length_detectConflicts detectConflicts_nth truncate_spread)
  ultimately show ?thesis
    using sim(2,3,4) by (simp add: length_detectConflicts)
qed

text \<open>
  On the example store the array and its two objects are unchanged, the two result
  objects are flagged, and the result on values keeps the two events.
\<close>

theorem detectConflicts_frame_witness:
  "arrs (snd (detectConflictsH Number_decimal 0 exampleHeap)) 0 = [0, 1]
   \<and> objs (snd (detectConflictsH Number_decimal 0 exampleHeap)) 0 = (meeting ''09:00'' 60, None)
   \<and> objs (snd (detectConflictsH Number_decimal 0 exampleHeap)) 1 = (meeting ''09:30'' 30, None)
   \<and> map conflict (viewArr (snd (detectConflictsH Number_decimal 0 exampleHeap))
         (fst (detectConflictsH Number_decimal 0 exampleHeap))) = [True, True]
   \<and> map event.truncate (detectConflicts Number_decimal [meeting ''09:00'' 60, meeting ''09:30'' 30])
       = [meeting ''09:00'' 60, meeting ''09:30'' 30]"
proof -
  let ?R = "detectConflictsH Number_decimal 0 exampleHeap"
  have a: "0 < nextArr exampleHeap"
    by (simp add: exampleHeap_def)
  have b: "\<forall>e\<in>set (arrs exampleHeap 0). e < nextObj exampleHeap"
    by (simp add: exampleHeap_def)
  have c: "?R = (fst ?R, snd ?R)"
    by simp
  have evs: "map (\<lambda>e. fst (objs exampleHeap e)) (arrs exampleHeap 0)
      = [meeting ''09:00'' 60, meeting ''09:30'' 30]"
    by (simp add: exampleHeap_def)
  from detectConflicts_frame [OF a b c, of "[meeting ''09:00'' 60, meeting ''09:30'' 30]"]
  have "arrs (snd ?R) 0 = arrs exampleHeap 0"
    and "\<forall>e\<in>set (arrs exampleHeap 0). objs (snd ?R) e = objs exampleHeap e"
    and "viewArr (snd ?R) (fst ?R)
          = detectConflicts Number_decimal [meeting ''09:00'' 60, meeting ''09:30'' 30]"
    and "map event.truncate (detectConflicts Number_decimal [meeting ''09:00'' 60, meeting ''09:30'' 30])
          = [meeting ''09:00'' 60, meeting ''09:30'' 30]"
    unfolding evs by blast+
  then show ?thesis
    by (simp add: exampleHeap_def detectConflicts_pair overlap_examples)
qed

end
